theory Spec2Isabelle
  imports Main
begin

section \<open>Python values: errors and strings\<close>

text \<open>
  Every \<^verbatim>\<open>raise\<close> of the source, and every exception a library call of the source
  can raise, is a value of \<open>error\<close>; a fallible function returns \<open>error + 'a\<close>
  with \<open>Inl\<close> for the exception.
\<close>

type_synonym path = string
type_synonym cmd = "string list"

datatype error =
    ValueError
  | IndexError
  | TypeError
  | RuntimeError string
  | Exception string
  | CalledProcessError cmd
  | FileNotFoundError path
  | FileExistsError path
  | OSError path

text \<open>Sequencing of fallible steps: the first exception ends the computation.\<close>

definition bind :: "error + 'a \<Rightarrow> ('a \<Rightarrow> error + 'b) \<Rightarrow> error + 'b" where
  "bind m f = (case m of Inl e \<Rightarrow> Inl e | Inr x \<Rightarrow> f x)"

text \<open>
  A string is a list of code points below 256 (the Latin-1 range of Unicode); text with
  other characters is outside the model.

  \<^verbatim>\<open>str.isspace\<close> on this range: space, TAB, LF, VT, FF, CR, FS, GS, RS, US, NEL and the
  no-break space. These are the blanks that \<^verbatim>\<open>strip()\<close> and \<^verbatim>\<open>split()\<close> remove. The decimal
  digits of the range are \<^verbatim>\<open>0\<close> to \<^verbatim>\<open>9\<close>.
\<close>

definition is_space :: "char \<Rightarrow> bool" where
  "is_space c = (c \<in> set [CHR '' '', CHR 0x09, CHR 0x0A, CHR 0x0B, CHR 0x0C, CHR 0x0D,
                            CHR 0x1C, CHR 0x1D, CHR 0x1E, CHR 0x1F, CHR 0x85, CHR 0xA0])"

definition is_digit :: "char \<Rightarrow> bool" where
  "is_digit c = (48 \<le> (of_char c :: nat) \<and> (of_char c :: nat) \<le> 57)"

definition digit_val :: "char \<Rightarrow> nat" where
  "digit_val c = of_char c - 48"

text \<open>\<^verbatim>\<open>s.strip()\<close>\<close>

definition strip :: "string \<Rightarrow> string" where
  "strip s = rev (dropWhile is_space (rev (dropWhile is_space s)))"

text \<open>\<^verbatim>\<open>s.startswith(p)\<close> and \<^verbatim>\<open>p in s\<close>\<close>

definition startswith :: "string \<Rightarrow> string \<Rightarrow> bool" where
  "startswith s p = (take (length p) s = p)"

fun contains :: "string \<Rightarrow> string \<Rightarrow> bool" where
  "contains p [] = (p = [])"
| "contains p (x # xs) = (startswith (x # xs) p \<or> contains p xs)"

text \<open>
  \<^verbatim>\<open>s.split(sep)\<close> for a separator that is not empty (every separator of the source is
  a literal: ".", ",", "-", "=", "Distrib "). The result always has at least one piece.
\<close>

function str_split :: "string \<Rightarrow> string \<Rightarrow> string list" where
  "str_split sep s =
     (if sep \<noteq> [] \<and> s \<noteq> [] \<and> startswith s sep then [] # str_split sep (drop (length sep) s)
      else (case s of
              [] \<Rightarrow> [[]]
            | x # xs \<Rightarrow> (case str_split sep xs of
                           [] \<Rightarrow> [[x]]
                         | w # ws \<Rightarrow> (x # w) # ws)))"
  by pat_completeness auto
termination
  by (relation "measure (\<lambda>(sep, s). length s)") auto

declare str_split.simps [simp del]

text \<open>\<^verbatim>\<open>s.split()\<close>: the maximal runs of characters that are not blank.\<close>

fun words_acc :: "string \<Rightarrow> string \<Rightarrow> string list" where
  "words_acc acc [] = (if acc = [] then [] else [rev acc])"
| "words_acc acc (x # xs) =
     (if is_space x then (if acc = [] then words_acc [] xs else rev acc # words_acc [] xs)
      else words_acc (x # acc) xs)"

definition split_ws :: "string \<Rightarrow> string list" where
  "split_ws s = words_acc [] s"

text \<open>
  \<^verbatim>\<open>s.splitlines()\<close>: a line ends at LF, VT, FF, CR, FS, GS, RS or NEL, and CR followed by
  LF ends one line, not two; the line ends are dropped, and text after the last line end
  is a line if it is not empty.
\<close>

definition is_linebreak :: "char \<Rightarrow> bool" where
  "is_linebreak c = (c \<in> set [CHR 0x0A, CHR 0x0B, CHR 0x0C, CHR 0x0D,
                                CHR 0x1C, CHR 0x1D, CHR 0x1E, CHR 0x85])"

fun lines_acc :: "string \<Rightarrow> string \<Rightarrow> string list" where
  "lines_acc acc [] = (if acc = [] then [] else [rev acc])"
| "lines_acc acc [x] = (if is_linebreak x then [rev acc] else [rev (x # acc)])"
| "lines_acc acc (x # y # ys) =
     (if x = CHR 0x0D \<and> y = CHR 0x0A then rev acc # lines_acc [] ys
      else if is_linebreak x then rev acc # lines_acc [] (y # ys)
      else lines_acc (x # acc) (y # ys))"

definition splitlines :: "string \<Rightarrow> string list" where
  "splitlines s = lines_acc [] s"

text \<open>
  \<^verbatim>\<open>int(s)\<close> in base 10: blanks around the literal are dropped, one sign may lead, the
  digits may be grouped by single underscores; anything else is \<^verbatim>\<open>ValueError\<close>. The
  blanks that \<^verbatim>\<open>int()\<close> drops are space, TAB, LF, VT, FF, CR, NEL and the no-break space:
  unlike \<^verbatim>\<open>strip()\<close>, it refuses a literal next to FS, GS, RS or US. (The bound that some
  interpreters put on the number of digits, 4300 by default, is not part of the model.)
\<close>

definition is_int_space :: "char \<Rightarrow> bool" where
  "is_int_space c = (c \<in> set [CHR '' '', CHR 0x09, CHR 0x0A, CHR 0x0B, CHR 0x0C, CHR 0x0D,
                                CHR 0x85, CHR 0xA0])"

definition int_strip :: "string \<Rightarrow> string" where
  "int_strip s = rev (dropWhile is_int_space (rev (dropWhile is_int_space s)))"

fun parse_digits :: "string \<Rightarrow> nat \<Rightarrow> nat option" where
  "parse_digits [] acc = Some acc"
| "parse_digits (c # cs) acc =
     (if is_digit c then parse_digits cs (10 * acc + digit_val c)
      else if c = CHR ''_'' then
        (case cs of
           [] \<Rightarrow> None
         | d # _ \<Rightarrow> if is_digit d then parse_digits cs acc else None)
      else None)"

definition parse_unsigned :: "string \<Rightarrow> nat option" where
  "parse_unsigned s =
     (case s of [] \<Rightarrow> None | c # _ \<Rightarrow> if is_digit c then parse_digits s 0 else None)"

definition py_int :: "string \<Rightarrow> error + int" where
  "py_int s =
     (let t = int_strip s;
          r = (case t of
                 [] \<Rightarrow> None
               | c # cs \<Rightarrow>
                   if c = CHR ''-'' then map_option (\<lambda>n. - int n) (parse_unsigned cs)
                   else if c = CHR ''+'' then map_option int (parse_unsigned cs)
                   else map_option int (parse_unsigned t))
      in case r of None \<Rightarrow> Inl ValueError | Some i \<Rightarrow> Inr i)"

text \<open>\<^verbatim>\<open>sep.join(pieces)\<close>, \<^verbatim>\<open>s.replace(old, new)\<close> for a literal \<open>old\<close> that is not empty
  (which is \<^verbatim>\<open>new.join(s.split(old))\<close>), \<^verbatim>\<open>os.path.join(a, b)\<close> for a relative \<open>b\<close>, and
  \<^verbatim>\<open>str(n)\<close> for an integer.\<close>

fun join :: "string \<Rightarrow> string list \<Rightarrow> string" where
  "join sep [] = []"
| "join sep [x] = x"
| "join sep (x # y # ys) = x @ sep @ join sep (y # ys)"

definition str_replace :: "string \<Rightarrow> string \<Rightarrow> string \<Rightarrow> string" where
  "str_replace old new s = join new (str_split old s)"

definition path_join :: "path \<Rightarrow> string \<Rightarrow> path" where
  "path_join a b = a @ ''/'' @ b"

function str_of_nat :: "nat \<Rightarrow> string" where
  "str_of_nat n =
     (if n < 10 then [char_of (48 + n)]
      else str_of_nat (n div 10) @ [char_of (48 + n mod 10)])"
  by pat_completeness auto
termination
  by (relation "measure (\<lambda>n. n)") auto

declare str_of_nat.simps [simp del]

definition str_of_int :: "int \<Rightarrow> string" where
  "str_of_int i = (if i < 0 then CHR ''-'' # str_of_nat (nat (- i)) else str_of_nat (nat i))"

text \<open>
  \<^verbatim>\<open>s.isnumeric()\<close>: the string is not empty and all its characters are numeric. The
  numeric characters of the range are the digits, the superscripts one, two and three,
  and the fractions one quarter, one half and three quarters; \<^verbatim>\<open>int()\<close> accepts only the
  digits among them.
\<close>

definition is_numeric_char :: "char \<Rightarrow> bool" where
  "is_numeric_char c =
     (is_digit c \<or> c \<in> set [CHR 0xB2, CHR 0xB3, CHR 0xB9, CHR 0xBC, CHR 0xBD, CHR 0xBE])"

definition isnumeric :: "string \<Rightarrow> bool" where
  "isnumeric s = (s \<noteq> [] \<and> list_all is_numeric_char s)"

text \<open>\<^verbatim>\<open>[f(x) for x in xs]\<close> for a fallible \<open>f\<close>: the first exception ends the loop.\<close>

fun map_result :: "('a \<Rightarrow> error + 'b) \<Rightarrow> 'a list \<Rightarrow> error + 'b list" where
  "map_result f [] = Inr []"
| "map_result f (x # xs) = bind (f x) (\<lambda>y. bind (map_result f xs) (\<lambda>ys. Inr (y # ys)))"

text \<open>\<^verbatim>\<open>for x in xs: step(x)\<close> over the host state: the first exception ends the loop.\<close>

fun for_each :: "('a \<Rightarrow> 'h \<Rightarrow> error + 'h) \<Rightarrow> 'a list \<Rightarrow> 'h \<Rightarrow> error + 'h" where
  "for_each step [] h = Inr h"
| "for_each step (x # xs) h = bind (step x h) (for_each step xs)"

section \<open>Version comparison (actions/mariadb.py)\<close>

text \<open>
  \<^verbatim>\<open>
  def _is_version_larger(left, right):
      for pleft, pright in zip(left.split("."), right.split(".")):
          if int(pleft) > int(pright):
              return True
          elif int(pright) > int(pleft):
              return False
      return False
  \<close>
  The loop runs over the zipped components, so it ends with the shorter list; each
  component is parsed when its pair is reached, the left one first.
\<close>

fun version_loop :: "(string \<times> string) list \<Rightarrow> error + bool" where
  "version_loop [] = Inr False"
| "version_loop ((pleft, pright) # rest) =
     bind (py_int pleft) (\<lambda>l.
     bind (py_int pright) (\<lambda>r.
       if l > r then Inr True
       else if r > l then Inr False
       else version_loop rest))"

definition is_version_larger :: "string \<Rightarrow> string \<Rightarrow> error + bool" where
  "is_version_larger left right = version_loop (zip (str_split ''.'' left) (str_split ''.'' right))"

definition MARIADB_VERSION_ON_ALMA :: string where
  "MARIADB_VERSION_ON_ALMA = ''10.3.35''"


section \<open>The host\<close>

text \<open>
  The actions read and write the files of the host, start and stop its services and run
  its commands. The host is the state every action takes and returns:
  \<^item> \<open>files\<close>: the regular files (as their lines, without the line terminators) and the
    symbolic links, by absolute path;
  \<^item> \<open>pgsql_root\<close>: the names of the entries of the PostgreSQL root directory, as
    \<^verbatim>\<open>os.listdir\<close> gives them; the flag files of \<^verbatim>\<open>PostgresReinstallModernPackage\<close>
    are entries of this directory;
  \<^item> \<open>enabled\<close>, \<open>active\<close>: the systemd units that are enabled, and those that run;
  \<^item> \<open>exit_status\<close>, \<open>stdout\<close>, \<open>stderr\<close>: for every command line, the status it exits
    with on this host (0 is success) and what it prints; the executables are present;
  \<^item> \<open>installed\<close>: the packages \<^verbatim>\<open>common.is_package_installed\<close> finds;
  \<^item> \<open>linux_distribution\<close>: the tuple of \<^verbatim>\<open>platform.linux_distribution()\<close>;
  \<^item> \<open>getlocale\<close>: the pair of \<^verbatim>\<open>locale.getlocale()\<close>, each part as \<^verbatim>\<open>str\<close> prints it;
  \<^item> \<open>pg_data_path\<close>: the directory \<^verbatim>\<open>postgres.get_data_path()\<close> names;
  \<^item> \<open>pg_installed\<close>, \<open>pg_initialized\<close>, \<open>pg_major_lower\<close>: the answers of
    \<^verbatim>\<open>postgres.is_postgres_installed\<close>, \<^verbatim>\<open>is_database_initialized\<close> and
    \<^verbatim>\<open>is_database_major_version_lower\<close>;
  \<^item> \<open>leapp\<close>: the requests made to the \<^verbatim>\<open>leapp_configs\<close> library, in order.
\<close>

datatype node = Regular "string list" | Symlink path

record host =
  files :: "path \<Rightarrow> node option"
  pgsql_root :: "string list"
  enabled :: "string \<Rightarrow> bool"
  active :: "string \<Rightarrow> bool"
  exit_status :: "cmd \<Rightarrow> int"
  stdout :: "cmd \<Rightarrow> string"
  stderr :: "cmd \<Rightarrow> string"
  installed :: "string \<Rightarrow> bool"
  linux_distribution :: "string \<times> string \<times> string"
  getlocale :: "string \<times> string"
  pg_data_path :: path
  pg_installed :: bool
  pg_initialized :: bool
  pg_major_lower :: "int \<Rightarrow> bool"
  leapp :: "cmd list"

subsection \<open>Files\<close>

text \<open>
  A path is resolved through at most 40 symbolic links, as the kernel does; a longer
  chain is an error. \<^verbatim>\<open>os.path.exists\<close> follows links and is false for a broken one;
  \<^verbatim>\<open>os.symlink\<close> and \<^verbatim>\<open>os.unlink\<close> act on the path itself.
\<close>

fun resolve :: "nat \<Rightarrow> (path \<Rightarrow> node option) \<Rightarrow> path \<Rightarrow> path option" where
  "resolve 0 fs p = (case fs p of Some (Symlink t) \<Rightarrow> None | _ \<Rightarrow> Some p)"
| "resolve (Suc n) fs p = (case fs p of Some (Symlink t) \<Rightarrow> resolve n fs t | _ \<Rightarrow> Some p)"

definition path_exists :: "host \<Rightarrow> path \<Rightarrow> bool" where
  "path_exists h p =
     (case resolve 40 (files h) p of None \<Rightarrow> False | Some q \<Rightarrow> files h q \<noteq> None)"

definition os_symlink :: "path \<Rightarrow> path \<Rightarrow> host \<Rightarrow> error + host" where
  "os_symlink target p h =
     (if files h p \<noteq> None then Inl (FileExistsError p)
      else Inr (h\<lparr>files := (files h)(p \<mapsto> Symlink target)\<rparr>))"

definition os_unlink :: "path \<Rightarrow> host \<Rightarrow> error + host" where
  "os_unlink p h =
     (if files h p = None then Inl (FileNotFoundError p)
      else Inr (h\<lparr>files := (files h)(p := None)\<rparr>))"

text \<open>\<^verbatim>\<open>open(p, "r").readlines()\<close> and \<^verbatim>\<open>open(p, "a").write(...)\<close>, through the links of \<open>p\<close>.\<close>

definition read_lines :: "host \<Rightarrow> path \<Rightarrow> error + string list" where
  "read_lines h p =
     (case resolve 40 (files h) p of
        None \<Rightarrow> Inl (OSError p)
      | Some q \<Rightarrow> (case files h q of
                     Some (Regular ls) \<Rightarrow> Inr ls
                   | _ \<Rightarrow> Inl (FileNotFoundError p)))"

definition append_lines :: "path \<Rightarrow> string list \<Rightarrow> host \<Rightarrow> error + host" where
  "append_lines p new h =
     (case resolve 40 (files h) p of
        None \<Rightarrow> Inl (OSError p)
      | Some q \<Rightarrow> (case files h q of
                     Some (Regular ls) \<Rightarrow> Inr (h\<lparr>files := (files h)(q \<mapsto> Regular (ls @ new))\<rparr>)
                   | _ \<Rightarrow> Inr (h\<lparr>files := (files h)(q \<mapsto> Regular new)\<rparr>)))"

text \<open>
  The file helpers of the \<^verbatim>\<open>common\<close> library (\<^verbatim>\<open>replace_string\<close>, \<^verbatim>\<open>backup_file\<close>,
  \<^verbatim>\<open>restore_file_from_backup\<close>, \<^verbatim>\<open>push_front_strings\<close>, \<^verbatim>\<open>find_file_substrings\<close>) are
  called by the actions and defined outside \<^verbatim>\<open>src/\<close>. They are modelled by what their
  names and their uses say: \<^verbatim>\<open>replace_string\<close> rewrites every line of the file and moves
  the result over it; \<^verbatim>\<open>backup_file\<close> copies an existing file to the path with
  \<^verbatim>\<open>.bak\<close> appended; \<^verbatim>\<open>restore_file_from_backup\<close> moves that copy back when there is
  one; \<^verbatim>\<open>push_front_strings\<close> puts lines before the first line;
  \<^verbatim>\<open>find_file_substrings\<close> returns the lines that hold a substring.
\<close>

definition replace_string :: "path \<Rightarrow> string \<Rightarrow> string \<Rightarrow> host \<Rightarrow> error + host" where
  "replace_string p old new h =
     bind (read_lines h p) (\<lambda>ls.
       Inr (h\<lparr>files := (files h)(p \<mapsto> Regular (map (str_replace old new) ls))\<rparr>))"

definition backup_file :: "path \<Rightarrow> host \<Rightarrow> error + host" where
  "backup_file p h =
     (if path_exists h p then
        bind (read_lines h p) (\<lambda>ls. Inr (h\<lparr>files := (files h)(p @ ''.bak'' \<mapsto> Regular ls)\<rparr>))
      else Inr h)"

definition restore_file_from_backup :: "path \<Rightarrow> host \<Rightarrow> error + host" where
  "restore_file_from_backup p h =
     (if path_exists h (p @ ''.bak'') then
        Inr (h\<lparr>files := (files h)(p := files h (p @ ''.bak''), p @ ''.bak'' := None)\<rparr>)
      else Inr h)"

definition push_front_strings :: "path \<Rightarrow> string list \<Rightarrow> host \<Rightarrow> error + host" where
  "push_front_strings p new h =
     bind (read_lines h p) (\<lambda>ls. Inr (h\<lparr>files := (files h)(p \<mapsto> Regular (new @ ls))\<rparr>))"

definition find_file_substrings :: "host \<Rightarrow> path \<Rightarrow> string \<Rightarrow> error + string list" where
  "find_file_substrings h p sub = bind (read_lines h p) (\<lambda>ls. Inr (filter (contains sub) ls))"

subsection \<open>Commands\<close>

text \<open>
  What a command that succeeds does to the host. \<^verbatim>\<open>systemctl\<close> changes the unit it names:
  \<^verbatim>\<open>reload-or-restart\<close> starts a unit that does not run, \<^verbatim>\<open>reload-or-try-restart\<close>
  leaves such a unit alone, and both keep a running unit running. The other commands of
  the actions (\<^verbatim>\<open>dnf\<close>, \<^verbatim>\<open>plesk\<close>, \<^verbatim>\<open>rmmod\<close>, \<^verbatim>\<open>mysql_upgrade\<close>,
  \<^verbatim>\<open>postgresql-setup\<close>) change packages, modules and databases, which are not part of
  the host record.
\<close>

definition systemctl :: "string \<Rightarrow> string \<Rightarrow> host \<Rightarrow> host" where
  "systemctl verb unit h =
     (if verb = ''stop'' then h\<lparr>active := (active h)(unit := False)\<rparr>
      else if verb = ''start'' then h\<lparr>active := (active h)(unit := True)\<rparr>
      else if verb = ''enable'' then h\<lparr>enabled := (enabled h)(unit := True)\<rparr>
      else if verb = ''disable'' then h\<lparr>enabled := (enabled h)(unit := False)\<rparr>
      else if verb = ''reload-or-restart'' then h\<lparr>active := (active h)(unit := True)\<rparr>
      else h)"

fun effect :: "cmd \<Rightarrow> host \<Rightarrow> host" where
  "effect [prog, verb, unit] h =
     (if prog = ''systemctl'' \<or> prog = ''/usr/bin/systemctl'' then systemctl verb unit h else h)"
| "effect c h = h"

text \<open>
  \<^verbatim>\<open>subprocess.check_call\<close>, and \<^verbatim>\<open>util.logged_check_call\<close> of the \<^verbatim>\<open>common\<close> library,
  which logs the output and raises as \<^verbatim>\<open>check_call\<close> does: a command that exits with a
  status other than 0 raises \<^verbatim>\<open>CalledProcessError\<close>.
\<close>

definition check_call :: "cmd \<Rightarrow> host \<Rightarrow> error + host" where
  "check_call c h = (if exit_status h c \<noteq> 0 then Inl (CalledProcessError c) else Inr (effect c h))"

definition logged_check_call :: "cmd \<Rightarrow> host \<Rightarrow> error + host" where
  "logged_check_call c h = check_call c h"

text \<open>
  \<^verbatim>\<open>subprocess.run(c, stdout=subprocess.PIPE, universal_newlines=True)\<close> without
  \<^verbatim>\<open>check=True\<close>: the status and the output are returned, whatever the status is. The
  commands the source runs this way are queries (\<^verbatim>\<open>lsmod\<close>, \<^verbatim>\<open>plesk version\<close>,
  \<^verbatim>\<open>plesk installer --query-status\<close>, \<^verbatim>\<open>which\<close>, \<^verbatim>\<open>--version\<close>).
\<close>

definition subprocess_run :: "host \<Rightarrow> cmd \<Rightarrow> int \<times> string" where
  "subprocess_run h c = (exit_status h c, stdout h c)"

text \<open>\<^verbatim>\<open>subprocess.check_output(c, input=query)\<close>: the output, or \<^verbatim>\<open>CalledProcessError\<close>.\<close>

definition check_output :: "host \<Rightarrow> cmd \<Rightarrow> error + string" where
  "check_output h c = (if exit_status h c \<noteq> 0 then Inl (CalledProcessError c) else Inr (stdout h c))"

text \<open>
  The calls into the \<^verbatim>\<open>leapp_configs\<close> library (defined outside \<^verbatim>\<open>src/\<close>) edit the
  configuration of the conversion engine; the host records each request, and a request
  fails when the host gives its line a status other than 0.
\<close>

definition leapp_request :: "cmd \<Rightarrow> host \<Rightarrow> error + host" where
  "leapp_request c h =
     (if exit_status h c \<noteq> 0 then Inl (Exception (concat c)) else Inr (h\<lparr>leapp := leapp h @ [c]\<rparr>))"

section \<open>The actions of actions/common.py\<close>

text \<open>
  An Active action is the triple of its \<^verbatim>\<open>_prepare_action\<close>, \<^verbatim>\<open>_post_action\<close> and
  \<^verbatim>\<open>_revert_action\<close>, each a fallible step on the host, with \<^verbatim>\<open>_is_required\<close> where the
  class defines it. A Check action is its \<^verbatim>\<open>_do_check\<close>. The base classes
  \<^verbatim>\<open>ActiveAction\<close> and \<^verbatim>\<open>CheckAction\<close> are outside \<^verbatim>\<open>src/\<close>; their \<^verbatim>\<open>prepare\<close>,
  \<^verbatim>\<open>post\<close>, \<^verbatim>\<open>revert\<close> and \<^verbatim>\<open>check\<close> run these methods.
\<close>

subsection \<open>FixNamedConfig\<close>

definition user_options_path :: path where
  "user_options_path = ''/etc/named-user-options.conf''"

definition FixNamedConfig_prepare_action :: "host \<Rightarrow> error + host" where
  "FixNamedConfig_prepare_action h =
     (if \<not> path_exists h user_options_path
      then os_symlink ''/var/named/chroot/etc/named-user-options.conf'' user_options_path h
      else Inr h)"

definition FixNamedConfig_post_action :: "host \<Rightarrow> error + host" where
  "FixNamedConfig_post_action h =
     (if path_exists h user_options_path then os_unlink user_options_path h else Inr h)"

definition FixNamedConfig_revert_action :: "host \<Rightarrow> error + host" where
  "FixNamedConfig_revert_action h =
     (if path_exists h user_options_path then os_unlink user_options_path h else Inr h)"

subsection \<open>FixSpamassassinConfig\<close>

definition FixSpamassassinConfig_is_required :: "host \<Rightarrow> bool" where
  "FixSpamassassinConfig_is_required h = installed h ''psa-spamassassin''"

definition FixSpamassassinConfig_prepare_action :: "host \<Rightarrow> error + host" where
  "FixSpamassassinConfig_prepare_action h =
     bind (logged_check_call [''systemctl'', ''stop'', ''spamassassin.service''] h)
          (logged_check_call [''systemctl'', ''disable'', ''spamassassin.service''])"

definition FixSpamassassinConfig_post_action :: "host \<Rightarrow> error + host" where
  "FixSpamassassinConfig_post_action h =
     bind (logged_check_call [''plesk'', ''sbin'', ''spammng'', ''--enable''] h) (\<lambda>h.
     bind (logged_check_call [''plesk'', ''sbin'', ''spammng'', ''--update'',
                              ''--enable-server-configs'', ''--enable-user-configs''] h) (\<lambda>h.
     bind (logged_check_call [''systemctl'', ''daemon-reload''] h)
          (logged_check_call [''systemctl'', ''enable'', ''spamassassin.service''])))"

definition FixSpamassassinConfig_revert_action :: "host \<Rightarrow> error + host" where
  "FixSpamassassinConfig_revert_action h =
     bind (logged_check_call [''systemctl'', ''enable'', ''spamassassin.service''] h)
          (logged_check_call [''systemctl'', ''start'', ''spamassassin.service''])"

subsection \<open>DisableSuspiciousKernelModules\<close>

definition suspicious_modules :: "string list" where
  "suspicious_modules = [''pata_acpi'', ''btrfs'', ''floppy'']"

definition modules_konfig_path :: path where
  "modules_konfig_path = ''/etc/modprobe.d/pataacpibl.conf''"

text \<open>
  \<^verbatim>\<open>line[:line.find(' ')]\<close>: the text before the first blank; \<^verbatim>\<open>find\<close> gives -1 when the
  line has none, and the slice then drops the last character.
\<close>

fun find_char :: "char \<Rightarrow> string \<Rightarrow> nat option" where
  "find_char c [] = None"
| "find_char c (x # xs) = (if x = c then Some 0 else map_option Suc (find_char c xs))"

definition module_name_of :: "string \<Rightarrow> string" where
  "module_name_of line =
     (case find_char CHR '' '' line of Some k \<Rightarrow> take k line | None \<Rightarrow> butlast line)"

text \<open>
  \<^verbatim>\<open>
  def _get_enabled_modules(self, lookup_modules):
      modules = []
      process = subprocess.run(["lsmod"], stdout=subprocess.PIPE, universal_newlines=True)
      for line in process.stdout.splitlines():
          module_name = line[:line.find(' ')]
          if module_name in lookup_modules:
              modules.append(module_name)
      return modules
  \<close>
  The exit status of \<^verbatim>\<open>lsmod\<close> is not read.
\<close>

definition get_enabled_modules :: "host \<Rightarrow> string list \<Rightarrow> string list" where
  "get_enabled_modules h lookup_modules =
     (let process = subprocess_run h [''lsmod'']
      in filter (\<lambda>m. m \<in> set lookup_modules) (map module_name_of (splitlines (snd process))))"

definition DisableSuspiciousKernelModules_prepare_action :: "host \<Rightarrow> error + host" where
  "DisableSuspiciousKernelModules_prepare_action h =
     bind (append_lines modules_konfig_path (map (\<lambda>m. ''blacklist '' @ m) suspicious_modules) h)
       (\<lambda>h. for_each (\<lambda>m. logged_check_call [''rmmod'', m])
                      (get_enabled_modules h suspicious_modules) h)"

definition DisableSuspiciousKernelModules_post_action :: "host \<Rightarrow> error + host" where
  "DisableSuspiciousKernelModules_post_action h =
     for_each (\<lambda>m. replace_string modules_konfig_path (''blacklist '' @ m) [])
              suspicious_modules h"

definition DisableSuspiciousKernelModules_revert_action :: "host \<Rightarrow> error + host" where
  "DisableSuspiciousKernelModules_revert_action h =
     for_each (\<lambda>m. replace_string modules_konfig_path (''blacklist '' @ m) [])
              suspicious_modules h"

subsection \<open>RuleSelinux\<close>

definition selinux_config :: path where
  "selinux_config = ''/etc/selinux/config''"

definition RuleSelinux_prepare_action :: "host \<Rightarrow> error + host" where
  "RuleSelinux_prepare_action h =
     replace_string selinux_config ''SELINUX=enforcing'' ''SELINUX=permissive'' h"

definition RuleSelinux_post_action :: "host \<Rightarrow> error + host" where
  "RuleSelinux_post_action h =
     replace_string selinux_config ''SELINUX=permissive'' ''SELINUX=enforcing'' h"

definition RuleSelinux_revert_action :: "host \<Rightarrow> error + host" where
  "RuleSelinux_revert_action h =
     replace_string selinux_config ''SELINUX=permissive'' ''SELINUX=enforcing'' h"

subsection \<open>AddInProgressSshLoginMessage\<close>

text \<open>The message is a parameter: it names the path of the running script.\<close>

definition motd_path :: path where
  "motd_path = ''/etc/motd''"

definition AddInProgressSshLoginMessage_prepare_action :: "string list \<Rightarrow> host \<Rightarrow> error + host" where
  "AddInProgressSshLoginMessage_prepare_action in_progress_message h =
     bind (backup_file motd_path h) (append_lines motd_path in_progress_message)"

definition AddInProgressSshLoginMessage_post_action :: "host \<Rightarrow> error + host" where
  "AddInProgressSshLoginMessage_post_action h = Inr h"

definition AddInProgressSshLoginMessage_revert_action :: "host \<Rightarrow> error + host" where
  "AddInProgressSshLoginMessage_revert_action h = restore_file_from_backup motd_path h"

subsection \<open>The checks\<close>

text \<open>
  A check returns its answer, or the exception it raised, and the host as it leaves it.
\<close>

definition PleskInstallerNotInProgress_do_check :: "host \<Rightarrow> (error + bool) \<times> host" where
  "PleskInstallerNotInProgress_do_check h =
     (let installer_check =
            subprocess_run h [''plesk'', ''installer'', ''--query-status'', ''--enable-xml-output'']
      in (Inr (contains ''query_ok'' (snd installer_check)), h))"

text \<open>
  \<^verbatim>\<open>
  def _do_check(self):
      distro = platform.linux_distribution()
      major_version, minor_version = distro[1].split(".")[:2]
      if distro[0] == "CentOS Linux" and int(major_version) == 7 and int(minor_version) == 9:
          return True
      return False
  \<close>
  The unpacking raises \<^verbatim>\<open>ValueError\<close> unless the slice has two parts; \<^verbatim>\<open>and\<close> evaluates
  its right operand only when the left one is true.
\<close>

definition DistroIsCentos79_result :: "string \<times> string \<times> string \<Rightarrow> error + bool" where
  "DistroIsCentos79_result distro =
     (case take 2 (str_split ''.'' (fst (snd distro))) of
        [major_version, minor_version] \<Rightarrow>
          if fst distro = ''CentOS Linux'' then
            bind (py_int major_version) (\<lambda>major.
              if major = 7 then
                bind (py_int minor_version) (\<lambda>minor. Inr (minor = 9))
              else Inr False)
          else Inr False
      | _ \<Rightarrow> Inl ValueError)"

definition DistroIsCentos79_do_check :: "host \<Rightarrow> (error + bool) \<times> host" where
  "DistroIsCentos79_do_check h = (DistroIsCentos79_result (linux_distribution h), h)"

text \<open>
  \<^verbatim>\<open>
  def _do_check(self):
      distro = platform.linux_distribution()
      major_version = distro[1].split(".")[0]
      if distro[0] == "AlmaLinux" and int(major_version) == 8:
          return True
      return False
  \<close>
\<close>

definition DistroIsAlmalinux8_result :: "string \<times> string \<times> string \<Rightarrow> error + bool" where
  "DistroIsAlmalinux8_result distro =
     (case str_split ''.'' (fst (snd distro)) of
        [] \<Rightarrow> Inl IndexError
      | major_version # _ \<Rightarrow>
          if fst distro = ''AlmaLinux'' then
            bind (py_int major_version) (\<lambda>major. Inr (major = 8))
          else Inr False)"

definition DistroIsAlmalinux8_do_check :: "host \<Rightarrow> (error + bool) \<times> host" where
  "DistroIsAlmalinux8_do_check h = (DistroIsAlmalinux8_result (linux_distribution h), h)"

text \<open>
  \<^verbatim>\<open>
  def _do_check(self):
      version_process = subprocess.run(["plesk", "version"], stdout=subprocess.PIPE, universal_newlines=True)
      for line in version_process.stdout.splitlines():
          if line.startswith("Product version"):
              version = line.split()[-1]
              major, _, iter, _ = version.split(".")
              if int(major) >= 18 and int(iter) >= 43:
                  return True
              break
      return False
  \<close>
  Only the first line that starts with "Product version" is read. The unpacking raises
  \<^verbatim>\<open>ValueError\<close> unless the version has exactly four parts.
\<close>

definition plesk_version_ok :: "string \<Rightarrow> error + bool" where
  "plesk_version_ok version =
     (case str_split ''.'' version of
        [major, _, iter, _] \<Rightarrow>
          bind (py_int major) (\<lambda>major.
            if major \<ge> 18 then bind (py_int iter) (\<lambda>iter. Inr (iter \<ge> 43))
            else Inr False)
      | _ \<Rightarrow> Inl ValueError)"

fun plesk_version_loop :: "string list \<Rightarrow> error + bool" where
  "plesk_version_loop [] = Inr False"
| "plesk_version_loop (line # rest) =
     (if startswith line ''Product version'' then
        (case split_ws line of
           [] \<Rightarrow> Inl IndexError
         | w # ws \<Rightarrow> plesk_version_ok (last (w # ws)))
      else plesk_version_loop rest)"

definition PleskVersionIsActual_do_check :: "host \<Rightarrow> (error + bool) \<times> host" where
  "PleskVersionIsActual_do_check h =
     (let version_process = subprocess_run h [''plesk'', ''version'']
      in (plesk_version_loop (splitlines (snd version_process)), h))"

section \<open>The actions of actions/mariadb.py\<close>

text \<open>
  \<^verbatim>\<open>
  def _get_mariadb_utilname():
      for util in ["mariadb", "mysql"]:
          if subprocess.run(["which", util], ...).returncode == 0:
              return util
      return None
  \<close>
\<close>

definition get_mariadb_utilname :: "host \<Rightarrow> string option" where
  "get_mariadb_utilname h =
     (if fst (subprocess_run h [''which'', ''mariadb'']) = 0 then Some ''mariadb''
      else if fst (subprocess_run h [''which'', ''mysql'']) = 0 then Some ''mysql''
      else None)"

text \<open>
  \<^verbatim>\<open>
  def _is_mariadb_installed():
      util = _get_mariadb_utilname()
      if util is None:
          return False
      elif util == "mariadb":
          return True
      process = subprocess.Popen([util, "--version"], ...)
      out, _ = process.communicate()
      if process.returncode != 0:
          return False
      return "MariaDB" in out
  \<close>
\<close>

definition is_mariadb_installed :: "host \<Rightarrow> bool" where
  "is_mariadb_installed h =
     (case get_mariadb_utilname h of
        None \<Rightarrow> False
      | Some util \<Rightarrow>
          if util = ''mariadb'' then True
          else if exit_status h [util, ''--version''] \<noteq> 0 then False
          else contains ''MariaDB'' (stdout h [util, ''--version'']))"

definition is_mysql_installed :: "host \<Rightarrow> bool" where
  "is_mysql_installed h =
     (case get_mariadb_utilname h of
        None \<Rightarrow> False
      | Some util \<Rightarrow>
          if util = ''mariadb'' then False
          else if exit_status h [util, ''--version''] \<noteq> 0 then False
          else \<not> contains ''MariaDB'' (stdout h [util, ''--version'']))"

text \<open>
  \<^verbatim>\<open>
  def _get_mariadb_version():
      util = _get_mariadb_utilname()
      process = subprocess.Popen([util, "--version"], ...)
      out, err = process.communicate()
      if process.returncode != 0:
          raise RuntimeError("Unable to get mariadb version: {}".format(err))
      log.debug(...)
      return out.split("Distrib ")[1].split(",")[0].split("-")[0]
  \<close>
  \<^verbatim>\<open>Popen\<close> raises \<^verbatim>\<open>TypeError\<close> for the name \<^verbatim>\<open>None\<close>; the index 1 raises \<^verbatim>\<open>IndexError\<close>
  when the output does not hold "Distrib ".
\<close>

definition version_of_output :: "string \<Rightarrow> error + string" where
  "version_of_output out =
     (case str_split ''Distrib '' out of
        _ # rest # _ \<Rightarrow>
          (case str_split '','' rest of
             [] \<Rightarrow> Inl IndexError
           | upto_comma # _ \<Rightarrow>
               (case str_split ''-'' upto_comma of
                  [] \<Rightarrow> Inl IndexError
                | upto_dash # _ \<Rightarrow> Inr upto_dash))
      | _ \<Rightarrow> Inl IndexError)"

definition get_mariadb_version :: "host \<Rightarrow> error + string" where
  "get_mariadb_version h =
     (case get_mariadb_utilname h of
        None \<Rightarrow> Inl TypeError
      | Some util \<Rightarrow>
          if exit_status h [util, ''--version''] \<noteq> 0
          then Inl (RuntimeError (''Unable to get mariadb version: '' @ stderr h [util, ''--version'']))
          else version_of_output (stdout h [util, ''--version'']))"

text \<open>
  \<^verbatim>\<open>
  def _is_required(self):   # AvoidMariadbDowngrade
      return _is_mariadb_installed() and not _is_version_larger(MARIADB_VERSION_ON_ALMA, _get_mariadb_version())
  def _is_required(self):   # UpdateMariadbDatabase
      return _is_mariadb_installed() and _is_version_larger(MARIADB_VERSION_ON_ALMA, _get_mariadb_version())
  \<close>
\<close>

definition AvoidMariadbDowngrade_is_required :: "host \<Rightarrow> error + bool" where
  "AvoidMariadbDowngrade_is_required h =
     (if is_mariadb_installed h then
        bind (get_mariadb_version h) (\<lambda>v.
        bind (is_version_larger MARIADB_VERSION_ON_ALMA v) (\<lambda>larger. Inr (\<not> larger)))
      else Inr False)"

definition UpdateMariadbDatabase_is_required :: "host \<Rightarrow> error + bool" where
  "UpdateMariadbDatabase_is_required h =
     (if is_mariadb_installed h then
        bind (get_mariadb_version h) (\<lambda>v. is_version_larger MARIADB_VERSION_ON_ALMA v)
      else Inr False)"

definition mariadb_repofile :: path where
  "mariadb_repofile = ''/etc/yum.repos.d/mariadb.repo''"

text \<open>
  \<^verbatim>\<open>
  def _prepare_action(self):
      if not os.path.exists(self.mariadb_repofile):
          raise Exception("Mariadb installed from unknown repository. ...")
      leapp_configs.add_repositories_mapping([self.mariadb_repofile])
      leapp_configs.set_package_repository("mariadb", "alma-maridb")
  \<close>
\<close>

definition AvoidMariadbDowngrade_prepare_action :: "host \<Rightarrow> error + host" where
  "AvoidMariadbDowngrade_prepare_action h =
     (if \<not> path_exists h mariadb_repofile then
        Inl (Exception (''Mariadb installed from unknown repository. Please check the ''
                        @ [CHR 0x27] @ mariadb_repofile @ [CHR 0x27] @ '' file is present''))
      else
        bind (leapp_request [''add_repositories_mapping'', mariadb_repofile] h)
             (leapp_request [''set_package_repository'', ''mariadb'', ''alma-maridb'']))"

definition AvoidMariadbDowngrade_post_action :: "host \<Rightarrow> error + host" where
  "AvoidMariadbDowngrade_post_action h = Inr h"

definition AvoidMariadbDowngrade_revert_action :: "host \<Rightarrow> error + host" where
  "AvoidMariadbDowngrade_revert_action h = Inr h"

text \<open>
  \<^verbatim>\<open>
  def _post_action(self):   # UpdateMariadbDatabase
      subprocess.check_call(["systemctl", "start", "mariadb"])
      with open('/etc/psa/.psa.shadow', 'r') as shadowfile:
          shadowdata = shadowfile.readline().rstrip()
          subprocess.check_call(["mysql_upgrade", "-uadmin", "-p" + shadowdata])
  \<close>
  \<^verbatim>\<open>readline\<close> of an empty file is the empty string.
\<close>

definition rstrip :: "string \<Rightarrow> string" where
  "rstrip s = rev (dropWhile is_space (rev s))"

definition UpdateMariadbDatabase_prepare_action :: "host \<Rightarrow> error + host" where
  "UpdateMariadbDatabase_prepare_action h = Inr h"

definition UpdateMariadbDatabase_post_action :: "host \<Rightarrow> error + host" where
  "UpdateMariadbDatabase_post_action h =
     bind (check_call [''systemctl'', ''start'', ''mariadb''] h) (\<lambda>h.
     bind (read_lines h ''/etc/psa/.psa.shadow'') (\<lambda>ls.
       let shadowdata = rstrip (case ls of [] \<Rightarrow> [] | l # _ \<Rightarrow> l)
       in check_call [''mysql_upgrade'', ''-uadmin'', ''-p'' @ shadowdata] h))"

definition UpdateMariadbDatabase_revert_action :: "host \<Rightarrow> error + host" where
  "UpdateMariadbDatabase_revert_action h = Inr h"

definition AddMysqlConnector_post_action :: "host \<Rightarrow> error + host" where
  "AddMysqlConnector_post_action h =
     check_call [''dnf'', ''install'', ''-y'', ''mariadb-connector-c''] h"

section \<open>The actions of cloudlinux7to8/actions/postgres.py\<close>

definition ALMA8_POSTGRES_VERSION :: int where
  "ALMA8_POSTGRES_VERSION = 10"

definition AssertOutdatedPostgresNotInstalled_do_check :: "host \<Rightarrow> (error + bool) \<times> host" where
  "AssertOutdatedPostgresNotInstalled_do_check h =
     (Inr (\<not> pg_installed h \<or> \<not> pg_initialized h \<or> \<not> pg_major_lower h ALMA8_POSTGRES_VERSION), h)"

subsection \<open>AssertPostgresLocaleMatchesSystemOne\<close>

text \<open>
  \<^verbatim>\<open>
  def _do_check(self):
      config_path = os.path.join(postgres.get_data_path(), 'pg_hba.conf')
      try:
          files.backup_file(config_path)
          files.push_front_strings(config_path, ["local template1 postgres trust #Added by Plesk\n"])
          util.logged_check_call(['systemctl', 'reload-or-restart', self.service_name])
          query = "SELECT datcollate, datctype FROM pg_database WHERE datname='postgres';"
          cmd = ['/usr/bin/psql', '-U', 'postgres', '-d', 'template1', '-qt', '-v', 'ON_ERROR_STOP=1', '-P', 'border=0']
          pg_locales = set(subprocess.check_output(cmd, input=query, universal_newlines=True).split())
          if len(pg_locales) != 1:
              return False
          sys_locales = set(l.split('=')[1].strip() for l in files.find_file_substrings('/etc/locale.conf', 'LANG='))
          sys_locales.add('.'.join(map(str, locale.getlocale())))
          if len(sys_locales) != 1:
              return False
          return pg_locales == sys_locales
      finally:
          files.restore_file_from_backup(config_path)
          util.logged_check_call(['systemctl', 'reload-or-try-restart', self.service_name])
  \<close>
  The \<^verbatim>\<open>try\<close> block gives its answer (or its exception) and the host it reached; the
  \<^verbatim>\<open>finally\<close> block runs on that host in both cases, and an exception of its own replaces
  the answer.
\<close>

definition config_path :: "host \<Rightarrow> path" where
  "config_path h = path_join (pg_data_path h) ''pg_hba.conf''"

definition psql_cmd :: cmd where
  "psql_cmd = [''/usr/bin/psql'', ''-U'', ''postgres'', ''-d'', ''template1'', ''-qt'', ''-v'',
               ''ON_ERROR_STOP=1'', ''-P'', ''border=0'']"

definition lang_of_line :: "string \<Rightarrow> error + string" where
  "lang_of_line l = (case str_split ''='' l of _ # v # _ \<Rightarrow> Inr (strip v) | _ \<Rightarrow> Inl IndexError)"

definition compare_locales :: "host \<Rightarrow> error + bool" where
  "compare_locales h =
     bind (check_output h psql_cmd) (\<lambda>out.
       let pg_locales = remdups (split_ws out) in
       if length pg_locales \<noteq> 1 then Inr False
       else
         bind (find_file_substrings h ''/etc/locale.conf'' ''LANG='') (\<lambda>ls.
         bind (map_result lang_of_line ls) (\<lambda>langs.
           let sys_locales = remdups (langs @ [join ''.'' [fst (getlocale h), snd (getlocale h)]]) in
           if length sys_locales \<noteq> 1 then Inr False
           else Inr (set pg_locales = set sys_locales))))"

definition locale_try :: "host \<Rightarrow> (error + bool) \<times> host" where
  "locale_try h =
     (case backup_file (config_path h) h of
        Inl e \<Rightarrow> (Inl e, h)
      | Inr h1 \<Rightarrow>
          (case push_front_strings (config_path h)
                  [''local template1 postgres trust #Added by Plesk''] h1 of
             Inl e \<Rightarrow> (Inl e, h1)
           | Inr h2 \<Rightarrow>
               (case logged_check_call [''systemctl'', ''reload-or-restart'', ''postgresql''] h2 of
                  Inl e \<Rightarrow> (Inl e, h2)
                | Inr h3 \<Rightarrow> (compare_locales h3, h3))))"

definition locale_finally :: "path \<Rightarrow> (error + bool) \<times> host \<Rightarrow> (error + bool) \<times> host" where
  "locale_finally p rh =
     (case restore_file_from_backup p (snd rh) of
        Inl e \<Rightarrow> (Inl e, snd rh)
      | Inr h1 \<Rightarrow>
          (case logged_check_call [''systemctl'', ''reload-or-try-restart'', ''postgresql''] h1 of
             Inl e \<Rightarrow> (Inl e, h1)
           | Inr h2 \<Rightarrow> (fst rh, h2)))"

definition AssertPostgresLocaleMatchesSystemOne_do_check :: "host \<Rightarrow> (error + bool) \<times> host" where
  "AssertPostgresLocaleMatchesSystemOne_do_check h = locale_finally (config_path h) (locale_try h)"

subsection \<open>PostgresDatabasesUpdate\<close>

definition PostgresDatabasesUpdate_prepare_action :: "host \<Rightarrow> error + host" where
  "PostgresDatabasesUpdate_prepare_action h =
     bind (logged_check_call [''systemctl'', ''stop'', ''postgresql''] h)
          (logged_check_call [''systemctl'', ''disable'', ''postgresql''])"

definition enable_postgresql :: "host \<Rightarrow> error + host" where
  "enable_postgresql h =
     bind (logged_check_call [''systemctl'', ''enable'', ''postgresql''] h)
          (logged_check_call [''systemctl'', ''start'', ''postgresql''])"

definition PostgresDatabasesUpdate_revert_action :: "host \<Rightarrow> error + host" where
  "PostgresDatabasesUpdate_revert_action h = enable_postgresql h"

subsection \<open>PostgresReinstallModernPackage\<close>

text \<open>
  \<^verbatim>\<open>
  def _get_versions(self):
      return [int(dataset) for dataset in os.listdir(postgres.get_pgsql_root_path()) if dataset.isnumeric()]
  \<close>
\<close>

definition get_versions :: "host \<Rightarrow> error + int list" where
  "get_versions h = map_result py_int (filter isnumeric (pgsql_root h))"

text \<open>
  \<^verbatim>\<open>subprocess.run(['/usr/bin/systemctl', 'is-active', service]).returncode == 0\<close>:
  \<^verbatim>\<open>systemctl is-active\<close> exits with 0 exactly for a unit that runs.
\<close>

definition is_service_active :: "host \<Rightarrow> string \<Rightarrow> bool" where
  "is_service_active h service = active h service"

text \<open>
  The flag file of a version is the entry \<^verbatim>\<open>f'{major_version}.enabled'\<close> of the root
  directory; \<^verbatim>\<open>open(path, 'w')\<close> creates it, \<^verbatim>\<open>os.path.exists\<close> looks for it and
  \<^verbatim>\<open>os.remove\<close> deletes it, raising \<^verbatim>\<open>FileNotFoundError\<close> when it is absent.
\<close>

definition get_version_enabled_path :: "int \<Rightarrow> string" where
  "get_version_enabled_path major_version = str_of_int major_version @ ''.enabled''"

definition get_service_name :: "int \<Rightarrow> string" where
  "get_service_name major_version = ''postgresql-'' @ str_of_int major_version"

definition flag_exists :: "host \<Rightarrow> int \<Rightarrow> bool" where
  "flag_exists h v = (get_version_enabled_path v \<in> set (pgsql_root h))"

definition create_flag :: "int \<Rightarrow> host \<Rightarrow> host" where
  "create_flag v h =
     (if flag_exists h v then h
      else h\<lparr>pgsql_root := pgsql_root h @ [get_version_enabled_path v]\<rparr>)"

definition remove_flag :: "int \<Rightarrow> host \<Rightarrow> error + host" where
  "remove_flag v h =
     (if flag_exists h v
      then Inr (h\<lparr>pgsql_root := removeAll (get_version_enabled_path v) (pgsql_root h)\<rparr>)
      else Inl (FileNotFoundError (get_version_enabled_path v)))"

text \<open>
  \<^verbatim>\<open>
  def _prepare_action(self):
      leapp_configs.add_repositories_mapping(["/etc/yum.repos.d/pgdg-redhat-all.repo"])
      for major_version in self._get_versions():
          service_name = self._get_service_name(major_version)
          if self._is_service_active(service_name):
              with open(self._get_version_enabled_path(major_version), 'w'):
                  pass
              util.logged_check_call(['/usr/bin/systemctl', 'stop', service_name])
              util.logged_check_call(['/usr/bin/systemctl', 'disable', service_name])
  \<close>
\<close>

definition prepare_version :: "int \<Rightarrow> host \<Rightarrow> error + host" where
  "prepare_version major_version h =
     (let service_name = get_service_name major_version in
      if is_service_active h service_name then
        bind (logged_check_call [''/usr/bin/systemctl'', ''stop'', service_name]
                (create_flag major_version h))
             (logged_check_call [''/usr/bin/systemctl'', ''disable'', service_name])
      else Inr h)"

definition PostgresReinstallModernPackage_prepare_action :: "host \<Rightarrow> error + host" where
  "PostgresReinstallModernPackage_prepare_action h =
     bind (leapp_request [''add_repositories_mapping'', ''/etc/yum.repos.d/pgdg-redhat-all.repo''] h)
       (\<lambda>h. bind (get_versions h) (\<lambda>vs. for_each prepare_version vs h))"

text \<open>
  \<^verbatim>\<open>
  if os.path.exists(self._get_version_enabled_path(major_version)):
      service_name = self._get_service_name(major_version)
      util.logged_check_call(['/usr/bin/systemctl', 'enable', service_name])
      util.logged_check_call(['/usr/bin/systemctl', 'start', service_name])
      os.remove(self._get_version_enabled_path(major_version))
  \<close>
  is the body of the loop of \<^verbatim>\<open>_revert_action\<close> and the second half of the body of the
  loop of \<^verbatim>\<open>_post_action\<close>, which installs the packages of the version first.
\<close>

definition restore_version :: "int \<Rightarrow> host \<Rightarrow> error + host" where
  "restore_version major_version h =
     (if flag_exists h major_version then
        let service_name = get_service_name major_version in
        bind (logged_check_call [''/usr/bin/systemctl'', ''enable'', service_name] h) (\<lambda>h.
        bind (logged_check_call [''/usr/bin/systemctl'', ''start'', service_name] h)
             (remove_flag major_version))
      else Inr h)"

definition install_version :: "int \<Rightarrow> host \<Rightarrow> error + host" where
  "install_version major_version h =
     (if major_version > ALMA8_POSTGRES_VERSION then
        bind (logged_check_call [''/usr/bin/dnf'', ''-q'', ''-y'', ''module'', ''disable'', ''postgresql''] h) (\<lambda>h.
        bind (logged_check_call [''/usr/bin/dnf'', ''update''] h)
             (logged_check_call [''/usr/bin/dnf'', ''install'', ''-y'',
                                 ''postgresql'' @ str_of_int major_version,
                                 ''postgresql'' @ str_of_int major_version @ ''-server'']))
      else
        bind (logged_check_call [''/usr/bin/dnf'', ''-q'', ''-y'', ''module'', ''enable'', ''postgresql''] h) (\<lambda>h.
        bind (logged_check_call [''/usr/bin/dnf'', ''update''] h)
             (logged_check_call [''/usr/bin/dnf'', ''install'', ''-y'', ''postgresql'', ''postgresql-server''])))"

definition post_version :: "int \<Rightarrow> host \<Rightarrow> error + host" where
  "post_version major_version h = bind (install_version major_version h) (restore_version major_version)"

definition PostgresReinstallModernPackage_post_action :: "host \<Rightarrow> error + host" where
  "PostgresReinstallModernPackage_post_action h =
     bind (get_versions h) (\<lambda>vs. for_each post_version vs h)"

definition PostgresReinstallModernPackage_revert_action :: "host \<Rightarrow> error + host" where
  "PostgresReinstallModernPackage_revert_action h =
     bind (get_versions h) (\<lambda>vs. for_each restore_version vs h)"

section \<open>The action classes\<close>

text \<open>
  The Check actions and the Active actions that \<^verbatim>\<open>src/\<close> defines in full.
  (\<^verbatim>\<open>FetchKernelCareGPGKey\<close> and \<^verbatim>\<open>FetchPleskGPGKey\<close> inherit every method from a class
  outside \<^verbatim>\<open>src/\<close> and are left out.)
\<close>

datatype check_action =
    PleskInstallerNotInProgress
  | DistroIsCentos79
  | DistroIsAlmalinux8
  | PleskVersionIsActual
  | AssertOutdatedPostgresNotInstalled
  | AssertPostgresLocaleMatchesSystemOne

fun check :: "check_action \<Rightarrow> host \<Rightarrow> (error + bool) \<times> host" where
  "check PleskInstallerNotInProgress h = PleskInstallerNotInProgress_do_check h"
| "check DistroIsCentos79 h = DistroIsCentos79_do_check h"
| "check DistroIsAlmalinux8 h = DistroIsAlmalinux8_do_check h"
| "check PleskVersionIsActual h = PleskVersionIsActual_do_check h"
| "check AssertOutdatedPostgresNotInstalled h = AssertOutdatedPostgresNotInstalled_do_check h"
| "check AssertPostgresLocaleMatchesSystemOne h = AssertPostgresLocaleMatchesSystemOne_do_check h"

datatype active_action =
    FixNamedConfig
  | FixSpamassassinConfig
  | DisableSuspiciousKernelModules
  | RuleSelinux
  | AddFinishSshLoginMessage
  | AddInProgressSshLoginMessage
  | AvoidMariadbDowngrade
  | UpdateMariadbDatabase
  | AddMysqlConnector
  | PostgresDatabasesUpdate
  | PostgresReinstallModernPackage
  | FixupImunify
  | AdoptKolabRepositories

subsection \<open>Time estimates\<close>

text \<open>
  Modelled from the spec: the base class \<^verbatim>\<open>ActiveAction\<close> is not under \<^verbatim>\<open>src/\<close>; its
  \<^verbatim>\<open>estimate_prepare_time()\<close> and \<^verbatim>\<open>estimate_post_time()\<close>, which a class that declares
  no estimate inherits, are taken from the spec's data model: "optional
  \<^verbatim>\<open>estimate_prepare_time()\<close> and \<^verbatim>\<open>estimate_post_time()\<close> (seconds, default 0)".
\<close>

definition ActiveAction_estimate_prepare_time :: int where
  "ActiveAction_estimate_prepare_time = 0"

definition ActiveAction_estimate_post_time :: int where
  "ActiveAction_estimate_post_time = 0"

text \<open>
  The overriding methods of \<^verbatim>\<open>src/\<close>:
  \<^verbatim>\<open>AdoptKolabRepositories.estimate_prepare_time\<close> returns \<^verbatim>\<open>30\<close>,
  \<^verbatim>\<open>AdoptKolabRepositories.estimate_post_time\<close> returns \<^verbatim>\<open>2 * 60\<close>,
  \<^verbatim>\<open>PostgresDatabasesUpdate.estimate_post_time\<close> and
  \<^verbatim>\<open>PostgresReinstallModernPackage.estimate_post_time\<close> return \<^verbatim>\<open>3 * 60\<close>.
\<close>

definition declares_prepare_estimate :: "active_action \<Rightarrow> bool" where
  "declares_prepare_estimate a = (a = AdoptKolabRepositories)"

definition declares_post_estimate :: "active_action \<Rightarrow> bool" where
  "declares_post_estimate a =
     (a = AdoptKolabRepositories \<or> a = PostgresDatabasesUpdate \<or> a = PostgresReinstallModernPackage)"

fun estimate_prepare_time :: "active_action \<Rightarrow> int" where
  "estimate_prepare_time AdoptKolabRepositories = 30"
| "estimate_prepare_time a = ActiveAction_estimate_prepare_time"

fun estimate_post_time :: "active_action \<Rightarrow> int" where
  "estimate_post_time AdoptKolabRepositories = 2 * 60"
| "estimate_post_time PostgresDatabasesUpdate = 3 * 60"
| "estimate_post_time PostgresReinstallModernPackage = 3 * 60"
| "estimate_post_time a = ActiveAction_estimate_post_time"

section \<open>What the claims compare the code with\<close>

text \<open>
  A numeric version string: every piece between the dots is a run of digits that is not
  empty. Its components are the decimal values of the pieces.
\<close>

definition decimal :: "string \<Rightarrow> nat" where
  "decimal s = foldl (\<lambda>a d. 10 * a + digit_val d) 0 s"

definition all_digits :: "string \<Rightarrow> bool" where
  "all_digits s = (s \<noteq> [] \<and> list_all is_digit s)"

definition numeric_version :: "string \<Rightarrow> bool" where
  "numeric_version v = list_all all_digits (str_split ''.'' v)"

definition components :: "string \<Rightarrow> nat list" where
  "components v = map decimal (str_split ''.'' v)"

text \<open>
  "Numerically greater, comparing components left to right and treating a missing trailing
  component as zero": the order of the claim about \<^verbatim>\<open>_is_version_larger\<close>.
\<close>

fun greater_padded :: "nat list \<Rightarrow> nat list \<Rightarrow> bool" where
  "greater_padded [] ys = False"
| "greater_padded (x # xs) [] = (0 < x \<or> greater_padded xs [])"
| "greater_padded (x # xs) (y # ys) = (y < x \<or> (x = y \<and> greater_padded xs ys))"

text \<open>
  The order the loop decides: some position that both versions have holds a greater
  component on the left, and all positions before it hold equal components.
\<close>

definition greater_on_common :: "nat list \<Rightarrow> nat list \<Rightarrow> bool" where
  "greater_on_common xs ys =
     (\<exists>i < min (length xs) (length ys). ys ! i < xs ! i \<and> take i xs = take i ys)"

text \<open>
  "Version 18.0.43 or later" for a Plesk version of four components: the order of the
  description of \<^verbatim>\<open>PleskVersionIsActual\<close>, on the first three components.
\<close>

definition at_least_18_0_43 :: "nat list \<Rightarrow> bool" where
  "at_least_18_0_43 v =
     (case v of
        major # minor # iter # _ \<Rightarrow>
          18 < major \<or> (major = 18 \<and> (0 < minor \<or> 43 \<le> iter))
      | _ \<Rightarrow> False)"

text \<open>The content of a regular file, for the statements about files.\<close>

definition file_lines :: "host \<Rightarrow> path \<Rightarrow> string list option" where
  "file_lines h p = (case files h p of Some (Regular ls) \<Rightarrow> Some ls | _ \<Rightarrow> None)"

section \<open>Example hosts\<close>

text \<open>
  A CentOS 7.9 host on which every command succeeds and prints nothing, with no file and
  no running service; the examples below change the fields they are about.
\<close>

definition host0 :: host where
  "host0 = \<lparr>files = (\<lambda>p. None), pgsql_root = [], enabled = (\<lambda>u. False), active = (\<lambda>u. False),
            exit_status = (\<lambda>c. 0), stdout = (\<lambda>c. []), stderr = (\<lambda>c. []),
            installed = (\<lambda>p. False),
            linux_distribution = (''CentOS Linux'', ''7.9.2009'', ''Core''),
            getlocale = (''en_US'', ''UTF-8''), pg_data_path = ''/var/lib/pgsql/data'',
            pg_installed = False, pg_initialized = False, pg_major_lower = (\<lambda>v. False),
            leapp = []\<rparr>"

text \<open>A host with the MariaDB 5.5.68 of CentOS 7, installed as \<^verbatim>\<open>mysql\<close>.\<close>

definition mariadb_host :: host where
  "mariadb_host =
     host0\<lparr>exit_status := (\<lambda>c. if c = [''which'', ''mariadb''] then 1 else 0),
           stdout := (\<lambda>c. if c = [''mysql'', ''--version'']
                           then ''mysql  Ver 15.1 Distrib 5.5.68-MariaDB, for Linux (x86_64) using readline 5.1''
                           else [])\<rparr>"

text \<open>A host whose \<^verbatim>\<open>plesk version\<close> prints the product version \<open>v\<close>.\<close>

definition plesk_host :: "string \<Rightarrow> host" where
  "plesk_host v =
     host0\<lparr>stdout := (\<lambda>c. if c = [''plesk'', ''version'']
                           then ''Product version: Plesk Obsidian '' @ v @ [CHR 0x0A]
                                @ ''     OS version: CentOS 7.9.2009 x86_64'' @ [CHR 0x0A]
                           else [])\<rparr>"

text \<open>
  A host on which \<^verbatim>\<open>lsmod\<close> fails: it exits with status 1 and prints nothing. The module
  \<^verbatim>\<open>floppy\<close> may well be loaded; the listing that would say so is not produced.
\<close>

definition lsmod_fails_host :: host where
  "lsmod_fails_host = host0\<lparr>exit_status := (\<lambda>c. if c = [''lsmod''] then 1 else 0)\<rparr>"

text \<open>A host on which \<^verbatim>\<open>lsmod\<close> lists the module \<^verbatim>\<open>floppy\<close> and \<^verbatim>\<open>rmmod floppy\<close> fails.\<close>

definition rmmod_fails_host :: host where
  "rmmod_fails_host =
     host0\<lparr>exit_status := (\<lambda>c. if c = [''rmmod'', ''floppy''] then 1 else 0),
           stdout := (\<lambda>c. if c = [''lsmod'']
                           then ''Module                  Size  Used by'' @ [CHR 0x0A]
                                @ ''floppy                 69432  0'' @ [CHR 0x0A]
                           else [])\<rparr>"

text \<open>
  Hosts before a conversion: one where the administrator keeps a regular file
  \<^verbatim>\<open>/etc/named-user-options.conf\<close>, one where SELinux is permissive, and \<open>host0\<close> itself,
  where \<^verbatim>\<open>spamassassin.service\<close> is neither enabled nor running.
\<close>

definition named_host :: host where
  "named_host = host0\<lparr>files := (\<lambda>p. if p = ''/etc/named-user-options.conf''
                                    then Some (Regular [''max-cache-size 64M;'']) else None)\<rparr>"

definition permissive_host :: host where
  "permissive_host = host0\<lparr>files := (\<lambda>p. if p = ''/etc/selinux/config''
                                    then Some (Regular [''SELINUX=permissive'', ''SELINUXTYPE=targeted''])
                                    else None)\<rparr>"

text \<open>Whether a fallible step raised.\<close>

definition raises :: "error + 'a \<Rightarrow> bool" where
  "raises r = (case r of Inl e \<Rightarrow> True | Inr x \<Rightarrow> False)"

text \<open>
  A host with the PostgreSQL data sets 10 and 13, where \<^verbatim>\<open>postgresql-13\<close> is enabled and
  runs, and the same host after a reboot that followed a prepare: the service is stopped
  and disabled, and the flag file of version 13 is in the root directory.
\<close>

definition pg_host :: host where
  "pg_host = host0\<lparr>pgsql_root := [''10'', ''13'', ''data''],
                   enabled := (\<lambda>u. u = ''postgresql-13''),
                   active := (\<lambda>u. u = ''postgresql-13'')\<rparr>"

definition pg_flagged_host :: host where
  "pg_flagged_host = host0\<lparr>pgsql_root := [''10'', ''13'', ''data'', ''13.enabled'']\<rparr>"

text \<open>
  A host with an initialised PostgreSQL whose service is enabled and stopped, whose
  database and system locales agree.
\<close>

definition pg_stopped_host :: host where
  "pg_stopped_host =
     host0\<lparr>files := (\<lambda>p. if p = ''/var/lib/pgsql/data/pg_hba.conf''
                          then Some (Regular [''local all all peer''])
                          else if p = ''/etc/locale.conf''
                          then Some (Regular [''LANG=en_US.UTF-8''])
                          else None),
           enabled := (\<lambda>u. u = ''postgresql''),
           stdout := (\<lambda>c. if c = psql_cmd then '' en_US.UTF-8 en_US.UTF-8'' @ [CHR 0x0A] else [])\<rparr>"

definition pg_running_host :: host where
  "pg_running_host = pg_stopped_host\<lparr>active := (\<lambda>u. u = ''postgresql'')\<rparr>"

section \<open>The pipeline\<close>

text \<open>
  Modelled from the spec: the Pipeline Runner, the State Store and the Pipeline Record
  are code of the \<^verbatim>\<open>pleskdistup\<close> package, which \<^verbatim>\<open>centos2almaconverter/main.py\<close> calls
  (\<^verbatim>\<open>pleskdistup.main.main()\<close>) and which is not under \<^verbatim>\<open>src/\<close>. Every definition of this
  section follows the words of the spec (its sections 3, 4.1 and 4.2), not code.

  The Pipeline Record holds the overall status and, per action name, whether the action
  was required and the phase it reached (the time stamps of the record serve the
  Progress Estimator and are left out). An action without an entry is \<open>pending\<close>. The
  record also carries the accumulated revert failures, which decide between the final
  statuses \<open>Failed\<close> and \<open>Reverted\<close>.
\<close>

datatype phase = pending | prepare_done | post_done | reverted | failed

datatype status =
    NotStarted | Checking | Preparing | AwaitingExternalConversion | Resuming | Posting
  | Completed | Failed | Reverting | Reverted

record entry =
  required :: bool
  phase :: phase

record pipeline_record =
  status :: status
  entries :: "string \<Rightarrow> entry option"
  revert_failures :: "string list"

definition initial_record :: pipeline_record where
  "initial_record = \<lparr>status = NotStarted, entries = (\<lambda>n. None), revert_failures = []\<rparr>"

definition phase_of :: "pipeline_record \<Rightarrow> string \<Rightarrow> phase" where
  "phase_of r n = (case entries r n of None \<Rightarrow> pending | Some e \<Rightarrow> phase e)"

definition record_phase :: "string \<Rightarrow> bool \<Rightarrow> phase \<Rightarrow> pipeline_record \<Rightarrow> pipeline_record" where
  "record_phase n req p r = r\<lparr>entries := (entries r)(n \<mapsto> \<lparr>required = req, phase = p\<rparr>)\<rparr>"

definition mark :: "string \<Rightarrow> phase \<Rightarrow> pipeline_record \<Rightarrow> pipeline_record" where
  "mark n p r = r\<lparr>entries := (entries r)(n := map_option (\<lambda>e. e\<lparr>phase := p\<rparr>) (entries r n))\<rparr>"

text \<open>
  Modelled from the spec: the action list is "an ordered sequence of Actions", each a
  Check or an Active action with a "stable name (string), used as the State Store key".
  What the collaborators' actions do is outside the pipeline: a \<open>behaviour\<close> says, for a
  run, whether a check passes, whether an action is required, and whether its prepare,
  post and revert succeed or raise.
\<close>

datatype action = CheckAction string | ActiveAction string

record behaviour =
  check_passes :: "string \<Rightarrow> bool"
  is_required :: "string \<Rightarrow> bool"
  prepare_ok :: "string \<Rightarrow> bool"
  post_ok :: "string \<Rightarrow> bool"
  revert_ok :: "string \<Rightarrow> bool"

fun check_names :: "action list \<Rightarrow> string list" where
  "check_names [] = []"
| "check_names (CheckAction n # as) = n # check_names as"
| "check_names (ActiveAction n # as) = check_names as"

fun active_names :: "action list \<Rightarrow> string list" where
  "active_names [] = []"
| "active_names (CheckAction n # as) = active_names as"
| "active_names (ActiveAction n # as) = n # active_names as"

text \<open>The invocations of the actions' operations, in the order they happen.\<close>

datatype event = Check string | Prepare string | Post string | Revert string

text \<open>
  Modelled from the spec: "run every Check action in list order; first failing check
  aborts the run with no mutation performed".
\<close>

fun run_checks :: "behaviour \<Rightarrow> string list \<Rightarrow> bool \<times> event list" where
  "run_checks b [] = (True, [])"
| "run_checks b (n # ns) =
     (if check_passes b n
      then (fst (run_checks b ns), Check n # snd (run_checks b ns))
      else (False, [Check n]))"

text \<open>
  Modelled from the spec: one transition of the state machine of section 4.2, from the
  record as loaded to the record to save, with the invocations it makes.
  \<^item> \<open>NotStarted\<close>, \<open>Checking\<close>: the checks run; all must pass before any Active action
    executes.
  \<^item> \<open>Preparing\<close>: "for each Active action in order, if no record exists for it,
    evaluate \<open>is_required()\<close>; if false, record it \<open>post_done\<close> immediately and continue;
    if true, execute \<open>prepare()\<close> and record \<open>prepare_done\<close> (persist before moving to
    next action). If \<open>prepare()\<close> fails, transition to \<open>Reverting\<close>." The action whose
    prepare failed is recorded \<open>failed\<close>. Once no action is without a record, the
    status becomes \<open>AwaitingExternalConversion\<close>.
  \<^item> \<open>AwaitingExternalConversion\<close>: the next invocation resumes, through \<open>Resuming\<close>,
    at the post phase.
  \<^item> \<open>Posting\<close>: "for each action in order with \<open>prepare_done\<close> but not \<open>post_done\<close>,
    execute \<open>post()\<close> and record \<open>post_done\<close>, persisting after each one"; a failure
    of \<open>post()\<close> triggers the revert path; once no action is left, \<open>Completed\<close>.
  \<^item> \<open>Reverting\<close>: "iterate actions in reverse of forward order; for each action whose
    recorded phase is \<open>prepare_done\<close> or \<open>post_done\<close>, execute \<open>revert()\<close> and mark
    \<open>reverted\<close>, persisting after each; actions still \<open>pending\<close> are skipped. An action's
    \<open>revert()\<close> failing is recorded but does not stop reverting the remaining actions",
    and the run ends \<open>Failed\<close> "if any revert failed, \<open>Reverted\<close> otherwise".
  \<^item> \<open>Completed\<close>, \<open>Failed\<close>, \<open>Reverted\<close>: "no transitions leave these".
\<close>

definition done_phase :: "phase \<Rightarrow> bool" where
  "done_phase p = (p = prepare_done \<or> p = post_done)"

definition transition :: "behaviour \<Rightarrow> action list \<Rightarrow> pipeline_record \<Rightarrow> pipeline_record \<times> event list" where
  "transition b acts r =
     (case status r of
        NotStarted \<Rightarrow> (r\<lparr>status := Checking\<rparr>, [])
      | Checking \<Rightarrow>
          (r\<lparr>status := (if fst (run_checks b (check_names acts)) then Preparing else Failed)\<rparr>,
           snd (run_checks b (check_names acts)))
      | Preparing \<Rightarrow>
          (case find (\<lambda>n. entries r n = None) (active_names acts) of
             None \<Rightarrow> (r\<lparr>status := AwaitingExternalConversion\<rparr>, [])
           | Some n \<Rightarrow>
               if \<not> is_required b n then (record_phase n False post_done r, [])
               else if prepare_ok b n then (record_phase n True prepare_done r, [Prepare n])
               else ((record_phase n True failed r)\<lparr>status := Reverting\<rparr>, [Prepare n]))
      | AwaitingExternalConversion \<Rightarrow> (r\<lparr>status := Resuming\<rparr>, [])
      | Resuming \<Rightarrow> (r\<lparr>status := Posting\<rparr>, [])
      | Posting \<Rightarrow>
          (case find (\<lambda>n. phase_of r n = prepare_done) (active_names acts) of
             None \<Rightarrow> (r\<lparr>status := Completed\<rparr>, [])
           | Some n \<Rightarrow>
               if post_ok b n then (mark n post_done r, [Post n])
               else (r\<lparr>status := Reverting\<rparr>, [Post n]))
      | Reverting \<Rightarrow>
          (case find (\<lambda>n. done_phase (phase_of r n)) (rev (active_names acts)) of
             None \<Rightarrow> (r\<lparr>status := (if revert_failures r = [] then Reverted else Failed)\<rparr>, [])
           | Some n \<Rightarrow>
               if revert_ok b n then (mark n reverted r, [Revert n])
               else ((mark n failed r)\<lparr>revert_failures := revert_failures r @ [n]\<rparr>, [Revert n]))
      | Completed \<Rightarrow> (r, [])
      | Failed \<Rightarrow> (r, [])
      | Reverted \<Rightarrow> (r, []))"

text \<open>
  Modelled from the spec: the State Store. "\<open>load() -> PipelineRecord | NotFound\<close>" and
  "\<open>save(record)\<close>: atomically replaces the persisted record"; "every \<open>save\<close> must be
  observable by a subsequent \<open>load\<close> even if the process is killed immediately after".
  The store is the record last saved, if any; the Pipeline Record "is created on first
  invocation". The state of a run is the store and the invocations made so far; one
  step loads, makes one transition and saves.
\<close>

type_synonym store = "pipeline_record option"

definition load :: "store \<Rightarrow> pipeline_record" where
  "load st = (case st of None \<Rightarrow> initial_record | Some r \<Rightarrow> r)"

definition save :: "pipeline_record \<Rightarrow> store" where
  "save r = Some r"

definition step :: "behaviour \<Rightarrow> action list \<Rightarrow> store \<times> event list \<Rightarrow> store \<times> event list" where
  "step b acts s =
     (save (fst (transition b acts (load (fst s)))),
      snd s @ snd (transition b acts (load (fst s))))"

text \<open>
  Modelled from the spec: a Runner process. It steps until the reboot boundary
  (\<open>AwaitingExternalConversion\<close>: "the process may now exit") or a terminal state, or
  until it is killed; \<open>run_process k\<close> is the process killed immediately after its
  \<open>k\<close>-th save, if it has not ended before. A new invocation resumes from the stored
  record: it leaves the reboot boundary for the post phase and otherwise continues where
  the record stands. A history is a sequence of invocations, each with the number of
  saves after which it is killed.
\<close>

definition ended :: "status \<Rightarrow> bool" where
  "ended st = (st = AwaitingExternalConversion \<or> st = Completed \<or> st = Failed \<or> st = Reverted)"

fun run_process :: "nat \<Rightarrow> behaviour \<Rightarrow> action list \<Rightarrow> store \<times> event list \<Rightarrow> store \<times> event list" where
  "run_process 0 b acts s = s"
| "run_process (Suc k) b acts s =
     (if ended (status (load (fst s))) then s else run_process k b acts (step b acts s))"

definition resume :: "behaviour \<Rightarrow> action list \<Rightarrow> store \<times> event list \<Rightarrow> store \<times> event list" where
  "resume b acts s =
     (if status (load (fst s)) = AwaitingExternalConversion then step b acts s else s)"

definition invoke :: "nat \<Rightarrow> behaviour \<Rightarrow> action list \<Rightarrow> store \<times> event list \<Rightarrow> store \<times> event list" where
  "invoke k b acts s = run_process k b acts (resume b acts s)"

definition history :: "behaviour \<Rightarrow> action list \<Rightarrow> nat list \<Rightarrow> store \<times> event list" where
  "history b acts ks = foldl (\<lambda>s k. invoke k b acts s) (None, []) ks"

text \<open>The names whose prepare, post and revert were invoked, in order.\<close>

fun prepares :: "event list \<Rightarrow> string list" where
  "prepares [] = []"
| "prepares (Prepare n # es) = n # prepares es"
| "prepares (e # es) = prepares es"

fun posts :: "event list \<Rightarrow> string list" where
  "posts [] = []"
| "posts (Post n # es) = n # posts es"
| "posts (e # es) = posts es"

fun reverts :: "event list \<Rightarrow> string list" where
  "reverts [] = []"
| "reverts (Revert n # es) = n # reverts es"
| "reverts (e # es) = reverts es"

text \<open>
  Enough saves for a process to end, whatever the record it starts from: two for the
  checks, one for the resumption, and for each of the three loops one per Active action
  and one to leave the loop.
\<close>

definition enough :: "action list \<Rightarrow> nat" where
  "enough acts = 3 * length (active_names acts) + 7"

text \<open>
  The terminal statuses ("no transitions leave these"), and the statuses of a run that
  has left the reboot boundary behind.
\<close>

definition terminal :: "status \<Rightarrow> bool" where
  "terminal st = (st = Completed \<or> st = Failed \<or> st = Reverted)"

definition past_boundary :: "status \<Rightarrow> bool" where
  "past_boundary st = (st = Resuming \<or> st = Posting \<or> st = Reverting \<or> terminal st)"

text \<open>
  A run brought to its end from the state it is in: a Runner process that is not killed,
  which ends at the reboot boundary or at a terminal state, and then the process invoked
  after the reboot, not killed either. The run that is never killed is this from the
  empty store.
\<close>

definition finish :: "behaviour \<Rightarrow> action list \<Rightarrow> store \<times> event list \<Rightarrow> store \<times> event list" where
  "finish b acts s = invoke (enough acts) b acts (invoke (enough acts) b acts s)"

definition uninterrupted :: "behaviour \<Rightarrow> action list \<Rightarrow> store \<times> event list" where
  "uninterrupted b acts = finish b acts (None, [])"

text \<open>
  The run of the spec's scenario "action list \<open>[ActiveX, ActiveY]\<close>, \<open>ActiveX.prepare()\<close>
  succeeds, \<open>ActiveY.prepare()\<close> raises", after a passing check.
\<close>

definition scenario_actions :: "action list" where
  "scenario_actions = [CheckAction ''CheckA'', ActiveAction ''ActiveX'', ActiveAction ''ActiveY'']"

definition scenario_behaviour :: behaviour where
  "scenario_behaviour =
     \<lparr>check_passes = (\<lambda>n. True), is_required = (\<lambda>n. True),
      prepare_ok = (\<lambda>n. n \<noteq> ''ActiveY''), post_ok = (\<lambda>n. True), revert_ok = (\<lambda>n. True)\<rparr>"

text \<open>A run in which everything succeeds, for the same action list.\<close>

definition good_behaviour :: behaviour where
  "good_behaviour =
     \<lparr>check_passes = (\<lambda>n. True), is_required = (\<lambda>n. True),
      prepare_ok = (\<lambda>n. True), post_ok = (\<lambda>n. True), revert_ok = (\<lambda>n. True)\<rparr>"

text \<open>
  What relates a record to the invocations made so far: no prepare and no post was
  invoked twice, an action whose prepare was invoked has an entry, and an action whose
  post was invoked is no longer \<open>prepare_done\<close> unless the run has turned to the revert
  path.
\<close>

definition reverting :: "status \<Rightarrow> bool" where
  "reverting st = (st = Reverting \<or> st = Failed \<or> st = Reverted)"

definition consistent :: "pipeline_record \<Rightarrow> event list \<Rightarrow> bool" where
  "consistent r log =
     (distinct (prepares log) \<and> distinct (posts log)
      \<and> (\<forall>n \<in> set (prepares log). entries r n \<noteq> None)
      \<and> (\<forall>n \<in> set (posts log).
            entries r n \<noteq> None \<and> (phase_of r n \<noteq> prepare_done \<or> reverting (status r))))"

text \<open>
  What the record says of the invocations made so far, in a run with the behaviour \<open>b\<close>:
  only actions of the list have an entry, the entry holds the answer of \<open>is_required()\<close>,
  and \<open>prepare()\<close> was invoked exactly for the actions recorded as required. Unless the
  run has turned to the revert path, every entry is \<open>prepare_done\<close> or \<open>post_done\<close> and
  \<open>post()\<close> was invoked exactly for the required actions recorded \<open>post_done\<close>. From the
  reboot boundary on every action of the list has an entry, and in a completed run none
  is left \<open>prepare_done\<close>.
\<close>

definition recorded_required :: "pipeline_record \<Rightarrow> string \<Rightarrow> bool" where
  "recorded_required r n = (case entries r n of None \<Rightarrow> False | Some e \<Rightarrow> required e)"

definition accounted :: "behaviour \<Rightarrow> string list \<Rightarrow> pipeline_record \<Rightarrow> event list \<Rightarrow> bool" where
  "accounted b names r log =
     (\<forall>n. (entries r n \<noteq> None \<longrightarrow>
             n \<in> set names \<and> recorded_required r n = is_required b n)
          \<and> (phase_of r n = prepare_done \<longrightarrow> recorded_required r n)
          \<and> (n \<in> set (prepares log) \<longleftrightarrow> recorded_required r n)
          \<and> (\<not> reverting (status r) \<longrightarrow>
                (entries r n \<noteq> None \<longrightarrow> done_phase (phase_of r n))
                \<and> (n \<in> set (posts log) \<longleftrightarrow> recorded_required r n \<and> phase_of r n = post_done))
          \<and> (status r = AwaitingExternalConversion \<or> status r = Resuming \<or> status r = Posting
                \<or> status r = Completed \<longrightarrow> n \<in> set names \<longrightarrow> entries r n \<noteq> None)
          \<and> (status r = Completed \<longrightarrow> n \<in> set names \<longrightarrow> phase_of r n \<noteq> prepare_done))"

text \<open>
  A bound on the saves a process still makes before it ends: the statuses in the order
  the run passes them, and within a loop the number of actions the loop still has to
  visit.
\<close>

definition remaining :: "action list \<Rightarrow> pipeline_record \<Rightarrow> nat" where
  "remaining acts r =
     (let names = active_names acts; N = length names in
      case status r of
        NotStarted \<Rightarrow> 3 * N + 6
      | Checking \<Rightarrow> 3 * N + 5
      | Preparing \<Rightarrow> 2 * N + 4 + length (filter (\<lambda>n. entries r n = None) names)
      | Resuming \<Rightarrow> 2 * N + 3
      | Posting \<Rightarrow> N + 2 + length (filter (\<lambda>n. phase_of r n = prepare_done) names)
      | Reverting \<Rightarrow> 1 + length (filter (\<lambda>n. done_phase (phase_of r n)) names)
      | AwaitingExternalConversion \<Rightarrow> 0
      | Completed \<Rightarrow> 0
      | Failed \<Rightarrow> 0
      | Reverted \<Rightarrow> 0)"

text \<open>
  The shape of the record in a run whose \<open>i\<close>-th Active action (counting from 0) is the
  first whose prepare fails. While preparing, exactly the first \<open>j\<close> actions have an
  entry, each \<open>prepare_done\<close> or \<open>post_done\<close>; while reverting, exactly the first \<open>j\<close>
  actions are still \<open>prepare_done\<close> or \<open>post_done\<close> and the reverts invoked so far are
  those of the actions \<open>i - 1\<close> down to \<open>j\<close>, in this order.
\<close>

definition prepared_upto :: "string list \<Rightarrow> nat \<Rightarrow> pipeline_record \<Rightarrow> bool" where
  "prepared_upto names j r =
     ((\<forall>n. entries r n \<noteq> None \<longleftrightarrow> n \<in> set (take j names))
      \<and> (\<forall>n \<in> set (take j names). done_phase (phase_of r n)))"

definition undone_from :: "string list \<Rightarrow> nat \<Rightarrow> pipeline_record \<Rightarrow> bool" where
  "undone_from names j r =
     ((\<forall>n \<in> set (take j names). done_phase (phase_of r n))
      \<and> (\<forall>n. n \<notin> set (take j names) \<longrightarrow> \<not> done_phase (phase_of r n)))"

definition failing_run :: "string list \<Rightarrow> nat \<Rightarrow> pipeline_record \<Rightarrow> event list \<Rightarrow> bool" where
  "failing_run names i r log =
     (case status r of
        NotStarted \<Rightarrow> prepared_upto names 0 r \<and> reverts log = []
      | Checking \<Rightarrow> prepared_upto names 0 r \<and> reverts log = []
      | Preparing \<Rightarrow> reverts log = [] \<and> (\<exists>j \<le> i. prepared_upto names j r)
      | Reverting \<Rightarrow> (\<exists>j \<le> i. undone_from names j r \<and> reverts log = rev (drop j (take i names)))
      | Reverted \<Rightarrow> reverts log = rev (take i names)
      | Failed \<Rightarrow> reverts log = rev (take i names)
      | AwaitingExternalConversion \<Rightarrow> False
      | Resuming \<Rightarrow> False
      | Posting \<Rightarrow> False
      | Completed \<Rightarrow> False)"

section \<open>Basic facts\<close>

lemma bind_simps [simp]:
  "bind (Inl e) f = Inl e" "bind (Inr x) f = f x"
  by (simp_all add: bind_def)

lemma bind_eq_Inr: "bind m f = Inr y \<longleftrightarrow> (\<exists>x. m = Inr x \<and> f x = Inr y)"
  by (cases m) simp_all

lemma digit_not_space: "is_digit c \<Longrightarrow> \<not> is_space c"
  by (auto simp: is_digit_def is_space_def)

lemma digit_not_sign: "is_digit c \<Longrightarrow> c \<noteq> CHR ''-'' \<and> c \<noteq> CHR ''+''"
  by (auto simp: is_digit_def)

lemma dropWhile_none: "\<forall>c \<in> set xs. \<not> P c \<Longrightarrow> dropWhile P xs = xs"
  by (cases xs) auto

lemma digit_not_int_space: "is_digit c \<Longrightarrow> \<not> is_int_space c"
  by (auto simp: is_digit_def is_int_space_def)

lemma int_strip_digits: "all_digits s \<Longrightarrow> int_strip s = s"
proof -
  assume a: "all_digits s"
  then have d: "\<forall>c \<in> set s. \<not> is_int_space c"
    by (auto simp: all_digits_def list_all_iff digit_not_int_space)
  then have "dropWhile is_int_space s = s"
    by (rule dropWhile_none)
  moreover from d have "dropWhile is_int_space (rev s) = rev s"
    by (intro dropWhile_none) simp
  ultimately show ?thesis by (simp add: int_strip_def)
qed

lemma parse_digits_all:
  "list_all is_digit s \<Longrightarrow> parse_digits s acc = Some (foldl (\<lambda>a d. 10 * a + digit_val d) acc s)"
  by (induction s arbitrary: acc) auto

text \<open>\<^verbatim>\<open>int\<close> of a run of digits is its decimal value.\<close>

lemma py_int_digits: "all_digits s \<Longrightarrow> py_int s = Inr (int (decimal s))"
proof -
  assume a: "all_digits s"
  then obtain c cs where s: "s = c # cs" and c: "is_digit c" and all: "list_all is_digit s"
    by (cases s) (auto simp: all_digits_def)
  have "parse_unsigned s = Some (decimal s)"
    using s c parse_digits_all[OF all, of 0] by (simp add: parse_unsigned_def decimal_def)
  then show ?thesis
    using int_strip_digits[OF a] s digit_not_sign[OF c]
    by (simp add: py_int_def Let_def)
qed

section \<open>Time estimates\<close>

text \<open>
  Claim C7. For every Active action, \<^verbatim>\<open>estimate_prepare_time()\<close> and
  \<^verbatim>\<open>estimate_post_time()\<close> return a constant integer number of seconds that is not
  negative (the estimate depends on the class alone, not on the host); an action that
  declares no estimate reports the default 0; \<^verbatim>\<open>AdoptKolabRepositories\<close> returns 30 for
  prepare and 120 for post, and \<^verbatim>\<open>PostgresDatabasesUpdate\<close> and
  \<^verbatim>\<open>PostgresReinstallModernPackage\<close> return 180 for post.
\<close>

theorem estimates_constant_nonnegative:
  "0 \<le> estimate_prepare_time a \<and> 0 \<le> estimate_post_time a
   \<and> (\<not> declares_prepare_estimate a \<longrightarrow> estimate_prepare_time a = 0)
   \<and> (\<not> declares_post_estimate a \<longrightarrow> estimate_post_time a = 0)
   \<and> estimate_prepare_time AdoptKolabRepositories = 30
   \<and> estimate_post_time AdoptKolabRepositories = 120
   \<and> estimate_post_time PostgresDatabasesUpdate = 180
   \<and> estimate_post_time PostgresReinstallModernPackage = 180"
  by (cases a)
     (simp_all add: ActiveAction_estimate_prepare_time_def ActiveAction_estimate_post_time_def
        declares_prepare_estimate_def declares_post_estimate_def)

theorem estimates_constant_nonnegative_witness:
  "\<not> declares_prepare_estimate RuleSelinux \<and> \<not> declares_post_estimate RuleSelinux
   \<and> estimate_prepare_time RuleSelinux = 0 \<and> estimate_post_time RuleSelinux = 0
   \<and> estimate_post_time PostgresDatabasesUpdate = 180"
  using estimates_constant_nonnegative [of RuleSelinux]
  by (simp add: declares_prepare_estimate_def declares_post_estimate_def)

section \<open>Version comparison\<close>

lemma greater_on_common_Nil [simp]:
  "greater_on_common [] ys = False" "greater_on_common xs [] = False"
  by (simp_all add: greater_on_common_def)

lemma greater_on_common_Cons [simp]:
  "greater_on_common (x # xs) (y # ys) = (y < x \<or> (x = y \<and> greater_on_common xs ys))"
proof
  assume "greater_on_common (x # xs) (y # ys)"
  then obtain i where i: "i < min (length (x # xs)) (length (y # ys))"
    "(y # ys) ! i < (x # xs) ! i" "take i (x # xs) = take i (y # ys)"
    by (auto simp: greater_on_common_def)
  show "y < x \<or> (x = y \<and> greater_on_common xs ys)"
  proof (cases i)
    case 0
    with i show ?thesis by simp
  next
    case (Suc j)
    with i have "x = y" "j < min (length xs) (length ys)" "ys ! j < xs ! j" "take j xs = take j ys"
      by auto
    then show ?thesis by (auto simp: greater_on_common_def)
  qed
next
  assume "y < x \<or> (x = y \<and> greater_on_common xs ys)"
  then show "greater_on_common (x # xs) (y # ys)"
  proof
    assume "y < x"
    then show ?thesis unfolding greater_on_common_def by (intro exI[of _ 0]) simp
  next
    assume a: "x = y \<and> greater_on_common xs ys"
    then obtain j where "j < min (length xs) (length ys)" "ys ! j < xs ! j" "take j xs = take j ys"
      by (auto simp: greater_on_common_def)
    with a show ?thesis unfolding greater_on_common_def by (intro exI[of _ "Suc j"]) simp
  qed
qed

lemma version_loop_numeric:
  "list_all all_digits xs \<Longrightarrow> list_all all_digits ys \<Longrightarrow>
   version_loop (zip xs ys) = Inr (greater_on_common (map decimal xs) (map decimal ys))"
proof (induction xs arbitrary: ys)
  case Nil
  then show ?case by simp
next
  case (Cons x xs)
  show ?case
  proof (cases ys)
    case Nil
    then show ?thesis by simp
  next
    case (Cons y ys')
    with Cons.prems Cons.IH[of ys'] show ?thesis
      by (auto simp: py_int_digits)
  qed
qed

lemma greater_on_common_irrefl: "\<not> greater_on_common xs xs"
  by (simp add: greater_on_common_def)

lemma greater_on_common_asym: "greater_on_common xs ys \<Longrightarrow> \<not> greater_on_common ys xs"
proof (induction xs arbitrary: ys)
  case Nil
  then show ?case by simp
next
  case (Cons x xs)
  then show ?case by (cases ys) auto
qed

lemma is_version_larger_numeric:
  "numeric_version a \<Longrightarrow> numeric_version b \<Longrightarrow>
   is_version_larger a b = Inr (greater_on_common (components a) (components b))"
  by (simp add: is_version_larger_def numeric_version_def components_def version_loop_numeric)

lemma alma_numeric: "numeric_version MARIADB_VERSION_ON_ALMA"
  unfolding numeric_version_def MARIADB_VERSION_ON_ALMA_def by code_simp

text \<open>
  Claim C8, as stated, fails: \<^verbatim>\<open>_is_version_larger("10.3.35", "10.3")\<close> is \<^verbatim>\<open>False\<close>,
  although 10.3.35 is greater than 10.3 when the missing third component counts as zero.
\<close>

theorem is_version_larger_padded_counterexample:
  "numeric_version ''10.3.35'' \<and> numeric_version ''10.3''
   \<and> greater_padded (components ''10.3.35'') (components ''10.3'')
   \<and> is_version_larger ''10.3.35'' ''10.3'' = Inr False"
  by code_simp

text \<open>
  Claim C8, amended. For all numeric version strings \<open>a\<close> and \<open>b\<close>,
  \<^verbatim>\<open>_is_version_larger(a, b)\<close> returns \<^verbatim>\<open>True\<close> exactly when, at the first position among
  those both versions have where the components differ, the component of \<open>a\<close> is the
  greater one (components beyond the shorter version are not compared); it is
  irreflexive and asymmetric; and when MariaDB is installed with a numeric version \<open>v\<close>,
  \<^verbatim>\<open>UpdateMariadbDatabase.is_required()\<close> is that comparison of 10.3.35 with \<open>v\<close> and
  \<^verbatim>\<open>AvoidMariadbDowngrade.is_required()\<close> is its negation, so exactly one of them holds.
\<close>

theorem is_version_larger_common_prefix:
  assumes "numeric_version a" and "numeric_version b"
  shows "is_version_larger a b = Inr (greater_on_common (components a) (components b))
         \<and> is_version_larger a a = Inr False
         \<and> \<not> (is_version_larger a b = Inr True \<and> is_version_larger b a = Inr True)
         \<and> (is_mariadb_installed h \<and> get_mariadb_version h = Inr a \<longrightarrow>
              UpdateMariadbDatabase_is_required h
                = Inr (greater_on_common (components MARIADB_VERSION_ON_ALMA) (components a))
              \<and> AvoidMariadbDowngrade_is_required h
                = Inr (\<not> greater_on_common (components MARIADB_VERSION_ON_ALMA) (components a)))"
proof -
  have ab: "is_version_larger a b = Inr (greater_on_common (components a) (components b))"
    using assms by (rule is_version_larger_numeric)
  have ba: "is_version_larger b a = Inr (greater_on_common (components b) (components a))"
    using assms(2,1) by (rule is_version_larger_numeric)
  have aa: "is_version_larger a a = Inr False"
    using is_version_larger_numeric[OF assms(1) assms(1)] greater_on_common_irrefl by simp
  have asym: "\<not> (is_version_larger a b = Inr True \<and> is_version_larger b a = Inr True)"
    using ab ba greater_on_common_asym[of "components a" "components b"] by auto
  have alma: "is_version_larger MARIADB_VERSION_ON_ALMA a
                = Inr (greater_on_common (components MARIADB_VERSION_ON_ALMA) (components a))"
    using alma_numeric assms(1) by (rule is_version_larger_numeric)
  have req: "is_mariadb_installed h \<and> get_mariadb_version h = Inr a \<longrightarrow>
              UpdateMariadbDatabase_is_required h
                = Inr (greater_on_common (components MARIADB_VERSION_ON_ALMA) (components a))
              \<and> AvoidMariadbDowngrade_is_required h
                = Inr (\<not> greater_on_common (components MARIADB_VERSION_ON_ALMA) (components a))"
    using alma
    by (simp add: UpdateMariadbDatabase_is_required_def AvoidMariadbDowngrade_is_required_def)
  from ab aa asym req show ?thesis by blast
qed

theorem is_version_larger_common_prefix_witness:
  "numeric_version ''5.5.68'' \<and> numeric_version ''10.3''
   \<and> is_mariadb_installed mariadb_host \<and> get_mariadb_version mariadb_host = Inr ''5.5.68''
   \<and> is_version_larger ''5.5.68'' ''10.3'' = Inr False
   \<and> UpdateMariadbDatabase_is_required mariadb_host = Inr True
   \<and> AvoidMariadbDowngrade_is_required mariadb_host = Inr False"
proof -
  have n1: "numeric_version ''5.5.68''" by code_simp
  have n2: "numeric_version ''10.3''" by code_simp
  have i: "is_mariadb_installed mariadb_host" by code_simp
  have v: "get_mariadb_version mariadb_host = Inr ''5.5.68''" by code_simp
  have g1: "greater_on_common (components ''5.5.68'') (components ''10.3'') = False"
  proof -
    have "components ''5.5.68'' = [5, 5, 68]" "components ''10.3'' = [10, 3]" by code_simp+
    then show ?thesis by simp
  qed
  have g2: "greater_on_common (components MARIADB_VERSION_ON_ALMA) (components ''5.5.68'') = True"
  proof -
    have "components ''5.5.68'' = [5, 5, 68]" "components MARIADB_VERSION_ON_ALMA = [10, 3, 35]"
      by code_simp+
    then show ?thesis by simp
  qed
  from is_version_larger_common_prefix [OF n1 n2, of mariadb_host] n1 n2 i v g1 g2
  show ?thesis by simp
qed

section \<open>The checks of actions/common.py\<close>

lemma str_split_not_Nil: "str_split sep s \<noteq> []"
  by (subst str_split.simps) (auto split: list.splits)

lemma py_int_raises_ValueError: "py_int s = Inl e \<Longrightarrow> e = ValueError"
  by (auto simp: py_int_def Let_def split: option.splits list.splits if_splits)

text \<open>
  Claim C9 is right about what the check is for, and the code does not do it. The
  description of \<^verbatim>\<open>PleskVersionIsActual\<close> says "Plesk version should be 18.0.43 or later";
  the code tests \<^verbatim>\<open>int(major) >= 18 and int(iter) >= 43\<close>, so a version with a larger
  major or minor component and a third component below 43 is refused: 19.0.0.0 and
  18.1.2.0 are later than 18.0.43 and the check answers \<^verbatim>\<open>False\<close>, while 18.0.43.2 passes.
  (A version of three components, "19.0.0", cannot be unpacked into the four names and
  raises \<^verbatim>\<open>ValueError\<close>.)
\<close>

theorem plesk_version_check_refuses_19:
  "at_least_18_0_43 (components ''19.0.0.0'')
   \<and> fst (PleskVersionIsActual_do_check (plesk_host ''19.0.0.0'')) = Inr False
   \<and> at_least_18_0_43 (components ''18.1.2.0'')
   \<and> fst (PleskVersionIsActual_do_check (plesk_host ''18.1.2.0'')) = Inr False
   \<and> fst (PleskVersionIsActual_do_check (plesk_host ''18.0.43.2'')) = Inr True
   \<and> fst (PleskVersionIsActual_do_check (plesk_host ''19.0.0'')) = Inl ValueError"
  by code_simp

text \<open>
  Claim C10, as stated, fails: on a host whose distribution is not recognised,
  \<^verbatim>\<open>platform.linux_distribution()\<close> is \<^verbatim>\<open>('', '', '')\<close>, the version splits into one piece
  and the unpacking of \<^verbatim>\<open>DistroIsCentos79\<close> raises \<^verbatim>\<open>ValueError\<close>; for the name
  "AlmaLinux" with a first component that is not an integer literal,
  \<^verbatim>\<open>DistroIsAlmalinux8\<close> raises \<^verbatim>\<open>ValueError\<close> as well.
\<close>

theorem distro_checks_raise_counterexample:
  "fst (DistroIsCentos79_do_check (host0\<lparr>linux_distribution := ([], [], [])\<rparr>)) = Inl ValueError
   \<and> fst (DistroIsCentos79_do_check (host0\<lparr>linux_distribution := (''CentOS Linux'', ''7.x'', [])\<rparr>))
       = Inl ValueError
   \<and> fst (DistroIsAlmalinux8_do_check (host0\<lparr>linux_distribution := (''AlmaLinux'', ''Stream'', [])\<rparr>))
       = Inl ValueError"
  by code_simp

lemma Centos79_numeric:
  assumes "list_all all_digits (a # b # rest)"
  shows "DistroIsCentos79_result (name, ver, codename) = r \<Longrightarrow> str_split ''.'' ver = a # b # rest \<Longrightarrow>
         r = Inr (name = ''CentOS Linux'' \<and> decimal a = 7 \<and> decimal b = 9)"
  using assms by (auto simp: DistroIsCentos79_result_def py_int_digits)

lemma Centos79_errors:
  "DistroIsCentos79_result d = Inl e \<Longrightarrow> e = ValueError"
  by (auto simp: DistroIsCentos79_result_def bind_def
           split: list.splits if_splits sum.splits dest: py_int_raises_ValueError)

lemma Almalinux8_errors:
  "DistroIsAlmalinux8_result d = Inl e \<Longrightarrow> e = ValueError"
  by (auto simp: DistroIsAlmalinux8_result_def bind_def str_split_not_Nil
           split: list.splits if_splits sum.splits dest: py_int_raises_ValueError)

text \<open>
  Claim C10, amended. For every distribution tuple, the two checks leave the host as it
  is and either return a boolean or raise \<^verbatim>\<open>ValueError\<close>. \<^verbatim>\<open>DistroIsAlmalinux8.check()\<close>
  returns \<^verbatim>\<open>False\<close> whenever the name is not "AlmaLinux"; \<^verbatim>\<open>DistroIsCentos79.check()\<close>
  returns \<^verbatim>\<open>False\<close> whenever the name is not "CentOS Linux" and the version has at least
  two dot-separated components. On a numeric version they return the comparison: name
  "CentOS Linux" with components 7 and 9 (of a version with at least two components), and
  name "AlmaLinux" with first component 8. For a matching name the answer is that of
  \<^verbatim>\<open>int()\<close> on the components that are read: \<^verbatim>\<open>DistroIsAlmalinux8.check()\<close> raises
  \<^verbatim>\<open>ValueError\<close> exactly when \<^verbatim>\<open>int()\<close> raises on the first component and otherwise returns
  whether that integer is 8; \<^verbatim>\<open>DistroIsCentos79.check()\<close>, on a version with at least two
  components, raises \<^verbatim>\<open>ValueError\<close> exactly when \<^verbatim>\<open>int()\<close> raises on the first component,
  or the first component is the integer 7 and \<^verbatim>\<open>int()\<close> raises on the second, and
  otherwise returns whether the two integers are 7 and 9. (A component need not be a run
  of digits for \<^verbatim>\<open>int()\<close> to accept it: "8 " and "+8" are the integer 8.)
\<close>

theorem distro_checks_total_on_wellformed:
  assumes "linux_distribution h = (name, ver, codename)"
  shows "snd (DistroIsCentos79_do_check h) = h \<and> snd (DistroIsAlmalinux8_do_check h) = h
         \<and> (fst (DistroIsCentos79_do_check h) = Inl ValueError
              \<or> (\<exists>b. fst (DistroIsCentos79_do_check h) = Inr b))
         \<and> (fst (DistroIsAlmalinux8_do_check h) = Inl ValueError
              \<or> (\<exists>b. fst (DistroIsAlmalinux8_do_check h) = Inr b))
         \<and> (name \<noteq> ''AlmaLinux'' \<longrightarrow> fst (DistroIsAlmalinux8_do_check h) = Inr False)
         \<and> (name \<noteq> ''CentOS Linux'' \<and> 2 \<le> length (str_split ''.'' ver)
              \<longrightarrow> fst (DistroIsCentos79_do_check h) = Inr False)
         \<and> (numeric_version ver \<and> 2 \<le> length (str_split ''.'' ver)
              \<longrightarrow> fst (DistroIsCentos79_do_check h)
                    = Inr (name = ''CentOS Linux'' \<and> components ver ! 0 = 7 \<and> components ver ! 1 = 9))
         \<and> (numeric_version ver
              \<longrightarrow> fst (DistroIsAlmalinux8_do_check h)
                    = Inr (name = ''AlmaLinux'' \<and> components ver ! 0 = 8))
         \<and> (name = ''AlmaLinux''
              \<longrightarrow> fst (DistroIsAlmalinux8_do_check h)
                    = (case py_int (str_split ''.'' ver ! 0) of
                         Inl e \<Rightarrow> Inl ValueError
                       | Inr major \<Rightarrow> Inr (major = 8)))
         \<and> (name = ''CentOS Linux'' \<and> 2 \<le> length (str_split ''.'' ver)
              \<longrightarrow> fst (DistroIsCentos79_do_check h)
                    = (case py_int (str_split ''.'' ver ! 0) of
                         Inl e \<Rightarrow> Inl ValueError
                       | Inr major \<Rightarrow>
                           if major = 7
                           then (case py_int (str_split ''.'' ver ! 1) of
                                   Inl e \<Rightarrow> Inl ValueError
                                 | Inr minor \<Rightarrow> Inr (minor = 9))
                           else Inr False))"
proof -
  let ?c = "fst (DistroIsCentos79_do_check h)" and ?a = "fst (DistroIsAlmalinux8_do_check h)"
  have c: "?c = DistroIsCentos79_result (name, ver, codename)"
    and a: "?a = DistroIsAlmalinux8_result (name, ver, codename)"
    using assms by (simp_all add: DistroIsCentos79_do_check_def DistroIsAlmalinux8_do_check_def)
  have frame: "snd (DistroIsCentos79_do_check h) = h \<and> snd (DistroIsAlmalinux8_do_check h) = h"
    by (simp add: DistroIsCentos79_do_check_def DistroIsAlmalinux8_do_check_def)
  have c_total: "?c = Inl ValueError \<or> (\<exists>b. ?c = Inr b)"
    by (cases "DistroIsCentos79_result (name, ver, codename)") (auto simp: c dest: Centos79_errors)
  have a_total: "?a = Inl ValueError \<or> (\<exists>b. ?a = Inr b)"
    by (cases "DistroIsAlmalinux8_result (name, ver, codename)") (auto simp: a dest: Almalinux8_errors)
  have a_other: "name \<noteq> ''AlmaLinux'' \<longrightarrow> ?a = Inr False"
    using str_split_not_Nil[of "''.''" ver]
    by (auto simp: a DistroIsAlmalinux8_result_def split: list.splits)
  have c_other: "name \<noteq> ''CentOS Linux'' \<and> 2 \<le> length (str_split ''.'' ver) \<longrightarrow> ?c = Inr False"
  proof (cases "str_split ''.'' ver")
    case Nil
    then show ?thesis by simp
  next
    case (Cons x xs)
    then show ?thesis by (cases xs) (auto simp: c DistroIsCentos79_result_def)
  qed
  have c_num: "numeric_version ver \<and> 2 \<le> length (str_split ''.'' ver)
                 \<longrightarrow> ?c = Inr (name = ''CentOS Linux'' \<and> components ver ! 0 = 7 \<and> components ver ! 1 = 9)"
  proof (cases "str_split ''.'' ver")
    case Nil
    then show ?thesis by simp
  next
    case (Cons x xs)
    show ?thesis
    proof (cases xs)
      case Nil
      with Cons show ?thesis by simp
    next
      case (Cons y ys)
      with \<open>str_split ''.'' ver = x # xs\<close> have s: "str_split ''.'' ver = x # y # ys" by simp
      show ?thesis
      proof
        assume "numeric_version ver \<and> 2 \<le> length (str_split ''.'' ver)"
        then have "list_all all_digits (x # y # ys)" by (simp add: numeric_version_def s)
        from Centos79_numeric[OF this refl s, of name codename]
        show "?c = Inr (name = ''CentOS Linux'' \<and> components ver ! 0 = 7 \<and> components ver ! 1 = 9)"
          by (simp add: c components_def s)
      qed
    qed
  qed
  have a_num: "numeric_version ver \<longrightarrow> ?a = Inr (name = ''AlmaLinux'' \<and> components ver ! 0 = 8)"
  proof (cases "str_split ''.'' ver")
    case Nil
    then show ?thesis using str_split_not_Nil by blast
  next
    case (Cons x xs)
    then show ?thesis
      by (auto simp: a DistroIsAlmalinux8_result_def numeric_version_def components_def
                     py_int_digits)
  qed
  have a_int: "name = ''AlmaLinux''
                 \<longrightarrow> ?a = (case py_int (str_split ''.'' ver ! 0) of
                             Inl e \<Rightarrow> Inl ValueError
                           | Inr major \<Rightarrow> Inr (major = 8))"
  proof (cases "str_split ''.'' ver")
    case Nil
    then show ?thesis using str_split_not_Nil by blast
  next
    case (Cons x xs)
    then show ?thesis
      by (cases "py_int x")
         (auto simp: a DistroIsAlmalinux8_result_def dest: py_int_raises_ValueError)
  qed
  have c_int: "name = ''CentOS Linux'' \<and> 2 \<le> length (str_split ''.'' ver)
                 \<longrightarrow> ?c = (case py_int (str_split ''.'' ver ! 0) of
                             Inl e \<Rightarrow> Inl ValueError
                           | Inr major \<Rightarrow>
                               if major = 7
                               then (case py_int (str_split ''.'' ver ! 1) of
                                       Inl e \<Rightarrow> Inl ValueError
                                     | Inr minor \<Rightarrow> Inr (minor = 9))
                               else Inr False)"
  proof (cases "str_split ''.'' ver")
    case Nil
    then show ?thesis by simp
  next
    case (Cons x xs)
    show ?thesis
    proof (cases xs)
      case Nil
      with Cons show ?thesis by simp
    next
      case (Cons y ys)
      with \<open>str_split ''.'' ver = x # xs\<close> have s: "str_split ''.'' ver = x # y # ys" by simp
      show ?thesis
        by (cases "py_int x"; cases "py_int y")
           (auto simp: c s DistroIsCentos79_result_def dest: py_int_raises_ValueError)
    qed
  qed
  from frame c_total a_total a_other c_other c_num a_num a_int c_int show ?thesis by blast
qed

theorem distro_checks_total_on_wellformed_witness:
  "linux_distribution host0 = (''CentOS Linux'', ''7.9.2009'', ''Core'')
   \<and> numeric_version ''7.9.2009'' \<and> 2 \<le> length (str_split ''.'' ''7.9.2009'')
   \<and> ''CentOS Linux'' \<noteq> ''AlmaLinux''
   \<and> fst (DistroIsCentos79_do_check host0) = Inr True
   \<and> fst (DistroIsAlmalinux8_do_check host0) = Inr False
   \<and> \<not> numeric_version ''+8.5''
   \<and> fst (DistroIsAlmalinux8_do_check
             (host0\<lparr>linux_distribution := (''AlmaLinux'', ''+8.5'', ''Arctic Sphynx'')\<rparr>)) = Inr True
   \<and> fst (DistroIsAlmalinux8_do_check
             (host0\<lparr>linux_distribution := (''AlmaLinux'', ''8x.5'', ''Arctic Sphynx'')\<rparr>))
       = Inl ValueError"
proof -
  have d: "linux_distribution host0 = (''CentOS Linux'', ''7.9.2009'', ''Core'')"
    by (simp add: host0_def)
  have s: "str_split ''.'' ''7.9.2009'' = [''7'', ''9'', ''2009'']" by code_simp
  have n: "numeric_version ''7.9.2009''" by code_simp
  have c: "components ''7.9.2009'' = [7, 9, 2009]" by code_simp
  have d8: "linux_distribution (host0\<lparr>linux_distribution := (''AlmaLinux'', ''+8.5'', ''Arctic Sphynx'')\<rparr>)
              = (''AlmaLinux'', ''+8.5'', ''Arctic Sphynx'')"
    and dx: "linux_distribution (host0\<lparr>linux_distribution := (''AlmaLinux'', ''8x.5'', ''Arctic Sphynx'')\<rparr>)
              = (''AlmaLinux'', ''8x.5'', ''Arctic Sphynx'')"
    by simp_all
  have s8: "str_split ''.'' ''+8.5'' = [''+8'', ''5'']" and sx: "str_split ''.'' ''8x.5'' = [''8x'', ''5'']"
    by code_simp+
  have n8: "\<not> numeric_version ''+8.5''" by code_simp
  have i8: "py_int ''+8'' = Inr 8" and ix: "py_int ''8x'' = Inl ValueError" by code_simp+
  from distro_checks_total_on_wellformed [OF d] d s n c
  have a: "fst (DistroIsCentos79_do_check host0) = Inr True
           \<and> fst (DistroIsAlmalinux8_do_check host0) = Inr False"
    by simp
  from distro_checks_total_on_wellformed [OF d8] s8 i8
  have b: "fst (DistroIsAlmalinux8_do_check
                  (host0\<lparr>linux_distribution := (''AlmaLinux'', ''+8.5'', ''Arctic Sphynx'')\<rparr>)) = Inr True"
    by simp
  from distro_checks_total_on_wellformed [OF dx] sx ix
  have e: "fst (DistroIsAlmalinux8_do_check
                  (host0\<lparr>linux_distribution := (''AlmaLinux'', ''8x.5'', ''Arctic Sphynx'')\<rparr>))
             = Inl ValueError"
    by simp
  from d s n a b e n8 show ?thesis by simp
qed

section \<open>Failures of underlying steps\<close>

text \<open>
  Claim C6 is right about the contract, and \<^verbatim>\<open>DisableSuspiciousKernelModules\<close> breaks it.
  Every other step of the actions runs its command through \<^verbatim>\<open>util.logged_check_call\<close> or
  \<^verbatim>\<open>subprocess.check_call\<close>, which raise when the command fails (so a failing \<^verbatim>\<open>rmmod\<close>
  makes \<^verbatim>\<open>prepare()\<close> raise, \<^verbatim>\<open>AvoidMariadbDowngrade.prepare()\<close> raises when
  \<^verbatim>\<open>/etc/yum.repos.d/mariadb.repo\<close> is absent, and \<^verbatim>\<open>UpdateMariadbDatabase.post()\<close>
  raises when MariaDB cannot be started); \<^verbatim>\<open>_get_enabled_modules\<close> runs \<^verbatim>\<open>lsmod\<close>
  through \<^verbatim>\<open>subprocess.run\<close> without \<^verbatim>\<open>check=True\<close> and never reads the exit status. On a
  host where \<^verbatim>\<open>lsmod\<close> fails, no module is found, no \<^verbatim>\<open>rmmod\<close> runs and \<^verbatim>\<open>prepare()\<close>
  returns as if it had succeeded, having only written the blacklist.
\<close>

theorem prepare_succeeds_when_lsmod_fails:
  "exit_status lsmod_fails_host [''lsmod''] \<noteq> 0
   \<and> get_enabled_modules lsmod_fails_host suspicious_modules = []
   \<and> \<not> raises (DisableSuspiciousKernelModules_prepare_action lsmod_fails_host)
   \<and> raises (DisableSuspiciousKernelModules_prepare_action rmmod_fails_host)
   \<and> \<not> path_exists host0 mariadb_repofile
   \<and> raises (AvoidMariadbDowngrade_prepare_action host0)
   \<and> raises (UpdateMariadbDatabase_post_action
                (host0\<lparr>exit_status := (\<lambda>c. if c = [''systemctl'', ''start'', ''mariadb''] then 1 else 0)\<rparr>))"
  by code_simp

section \<open>Prepare followed by revert\<close>

text \<open>
  Claim C2 is right about what a revert is for, and the three actions break it on hosts
  that are not in the state their prepare expects. Their \<^verbatim>\<open>_revert_action\<close> undoes what
  \<^verbatim>\<open>_prepare_action\<close> does on such a host without recording whether it did anything
  (as \<^verbatim>\<open>PostgresReinstallModernPackage\<close> does with its flag files, and
  \<^verbatim>\<open>AddInProgressSshLoginMessage\<close> with its backup):
  \<^item> \<^verbatim>\<open>FixNamedConfig\<close>: on a host that has \<^verbatim>\<open>/etc/named-user-options.conf\<close>, prepare
    does nothing and revert deletes the file;
  \<^item> \<^verbatim>\<open>RuleSelinux\<close>: on a host with \<^verbatim>\<open>SELINUX=permissive\<close>, prepare changes nothing
    and revert writes \<^verbatim>\<open>SELINUX=enforcing\<close>;
  \<^item> \<^verbatim>\<open>FixSpamassassinConfig\<close>: on a host where \<^verbatim>\<open>spamassassin.service\<close> is disabled
    and stopped, revert enables and starts it.
  In each case both calls succeed.
\<close>

theorem revert_does_not_restore:
  "(case bind (FixNamedConfig_prepare_action named_host) FixNamedConfig_revert_action of
      Inl e \<Rightarrow> False
    | Inr h \<Rightarrow> path_exists named_host user_options_path \<and> \<not> path_exists h user_options_path)
   \<and> (case bind (RuleSelinux_prepare_action permissive_host) RuleSelinux_revert_action of
      Inl e \<Rightarrow> False
    | Inr h \<Rightarrow>
        file_lines permissive_host selinux_config = Some [''SELINUX=permissive'', ''SELINUXTYPE=targeted'']
        \<and> file_lines h selinux_config = Some [''SELINUX=enforcing'', ''SELINUXTYPE=targeted''])
   \<and> (case bind (FixSpamassassinConfig_prepare_action host0) FixSpamassassinConfig_revert_action of
      Inl e \<Rightarrow> False
    | Inr h \<Rightarrow>
        \<not> enabled host0 ''spamassassin.service'' \<and> \<not> active host0 ''spamassassin.service''
        \<and> enabled h ''spamassassin.service'' \<and> active h ''spamassassin.service'')"
  by code_simp

lemma decimal_snoc: "decimal (s @ [c]) = 10 * decimal s + digit_val c"
  by (simp add: decimal_def)

lemma digit_val_char_of: "(d::nat) < 10 \<Longrightarrow> digit_val (char_of (48 + d)) = d"
  by (simp add: digit_val_def)

lemma decimal_str_of_nat: "decimal (str_of_nat n) = n"
proof (induction n rule: str_of_nat.induct)
  case (1 n)
  show ?case
  proof (cases "n < 10")
    case True
    then show ?thesis
      by (subst str_of_nat.simps) (simp add: decimal_def digit_val_char_of)
  next
    case False
    with 1 have "decimal (str_of_nat (n div 10)) = n div 10" by simp
    with False show ?thesis
      by (subst str_of_nat.simps) (simp add: decimal_snoc digit_val_char_of)
  qed
qed

lemma is_digit_char_of: "(d::nat) < 10 \<Longrightarrow> is_digit (char_of (48 + d))"
  by (simp add: is_digit_def)

lemma str_of_nat_digits: "list_all is_digit (str_of_nat n)"
proof (induction n rule: str_of_nat.induct)
  case (1 n)
  show ?case
  proof (cases "n < 10")
    case True
    then show ?thesis by (subst str_of_nat.simps) (simp add: is_digit_char_of)
  next
    case False
    with 1 have "list_all is_digit (str_of_nat (n div 10))" by simp
    with False show ?thesis
      by (subst str_of_nat.simps) (simp add: is_digit_char_of)
  qed
qed

lemma str_of_nat_inj: "str_of_nat m = str_of_nat n \<Longrightarrow> m = n"
  by (metis decimal_str_of_nat)

lemma str_of_nat_no_minus: "str_of_nat n \<noteq> CHR ''-'' # s"
proof
  assume "str_of_nat n = CHR ''-'' # s"
  with str_of_nat_digits[of n] have "is_digit CHR ''-''" by simp
  then show False by (simp add: is_digit_def)
qed

lemma str_of_int_inj: "str_of_int i = str_of_int j \<longleftrightarrow> i = j"
proof
  assume e: "str_of_int i = str_of_int j"
  show "i = j"
  proof (cases "i < 0")
    case True
    show ?thesis
    proof (cases "j < 0")
      case True
      with \<open>i < 0\<close> e have "nat (- i) = nat (- j)" by (auto simp: str_of_int_def dest: str_of_nat_inj)
      with True \<open>i < 0\<close> show ?thesis by simp
    next
      case False
      with \<open>i < 0\<close> e have "str_of_nat (nat j) = CHR ''-'' # str_of_nat (nat (- i))"
        by (simp add: str_of_int_def)
      with str_of_nat_no_minus show ?thesis by blast
    qed
  next
    case False
    show ?thesis
    proof (cases "j < 0")
      case True
      with False e have "str_of_nat (nat i) = CHR ''-'' # str_of_nat (nat (- j))"
        by (simp add: str_of_int_def)
      with str_of_nat_no_minus show ?thesis by blast
    next
      case F: False
      with False e have "nat i = nat j" by (auto simp: str_of_int_def dest: str_of_nat_inj)
      with False F show ?thesis by simp
    qed
  qed
qed simp

lemma service_name_inj [simp]: "get_service_name v = get_service_name w \<longleftrightarrow> v = w"
  by (simp add: get_service_name_def str_of_int_inj)

lemma enabled_path_inj [simp]: "get_version_enabled_path v = get_version_enabled_path w \<longleftrightarrow> v = w"
  by (simp add: get_version_enabled_path_def str_of_int_inj)

lemma logged_check_call_Inr:
  "logged_check_call c h = Inr h' \<longleftrightarrow> exit_status h c = 0 \<and> h' = effect c h"
  by (auto simp: logged_check_call_def check_call_def)

lemma prepare_version_Inr:
  assumes "prepare_version w h = Inr h'"
  shows "active h' u = (active h u \<and> u \<noteq> get_service_name w)"
    and "enabled h' u = (enabled h u \<and> \<not> (u = get_service_name w \<and> active h (get_service_name w)))"
    and "flag_exists h' v = (flag_exists h v \<or> (v = w \<and> active h (get_service_name w)))"
  using assms
  by (auto simp: prepare_version_def Let_def is_service_active_def bind_eq_Inr
        logged_check_call_Inr systemctl_def create_flag_def flag_exists_def
      split: if_splits)

lemma for_each_prepare_version:
  "for_each prepare_version vs h = Inr h' \<Longrightarrow>
     (\<forall>u. active h' u = (active h u \<and> u \<notin> get_service_name ` set vs))
   \<and> (\<forall>u. enabled h' u = (enabled h u \<and> \<not> (\<exists>v \<in> set vs. u = get_service_name v \<and> active h u)))
   \<and> (\<forall>v. flag_exists h' v = (flag_exists h v \<or> (v \<in> set vs \<and> active h (get_service_name v))))"
proof (induction vs arbitrary: h)
  case Nil
  then show ?case by simp
next
  case (Cons w ws)
  from Cons.prems obtain h1 where h1: "prepare_version w h = Inr h1"
    and rest: "for_each prepare_version ws h1 = Inr h'"
    by (auto simp: bind_eq_Inr)
  note p = prepare_version_Inr[OF h1]
  note ih = Cons.IH[OF rest]
  show ?case
    apply (intro conjI allI)
    subgoal for u using ih p(1)[of u] by auto
    subgoal for u using ih p(1)[of u] p(2)[of u] by auto
    subgoal for v using ih p(3)[of v] p(1)[of "get_service_name v"] by auto
    done
qed

lemma remove_flag_Inr:
  "remove_flag w h = Inr h' \<longleftrightarrow>
     flag_exists h w \<and> h' = h\<lparr>pgsql_root := removeAll (get_version_enabled_path w) (pgsql_root h)\<rparr>"
  by (auto simp: remove_flag_def)

lemma restore_version_Inr:
  assumes "restore_version w h = Inr h'"
  shows "active h' u = (active h u \<or> (u = get_service_name w \<and> flag_exists h w))"
    and "enabled h' u = (enabled h u \<or> (u = get_service_name w \<and> flag_exists h w))"
    and "flag_exists h' v = (flag_exists h v \<and> v \<noteq> w)"
  using assms
  by (auto simp: restore_version_def Let_def bind_eq_Inr logged_check_call_Inr remove_flag_Inr
        systemctl_def flag_exists_def
      split: if_splits)

lemma install_version_Inr: "install_version w h = Inr h' \<Longrightarrow> h' = h"
  by (auto simp: install_version_def bind_eq_Inr logged_check_call_Inr split: if_splits)

lemma post_version_Inr:
  assumes "post_version w h = Inr h'"
  shows "active h' u = (active h u \<or> (u = get_service_name w \<and> flag_exists h w))"
    and "enabled h' u = (enabled h u \<or> (u = get_service_name w \<and> flag_exists h w))"
    and "flag_exists h' v = (flag_exists h v \<and> v \<noteq> w)"
proof -
  from assms obtain h1 where "install_version w h = Inr h1" "restore_version w h1 = Inr h'"
    by (auto simp: post_version_def bind_eq_Inr)
  then have r: "restore_version w h = Inr h'" by (auto dest: install_version_Inr)
  show "active h' u = (active h u \<or> (u = get_service_name w \<and> flag_exists h w))"
    and "enabled h' u = (enabled h u \<or> (u = get_service_name w \<and> flag_exists h w))"
    and "flag_exists h' v = (flag_exists h v \<and> v \<noteq> w)"
    by (rule restore_version_Inr[OF r])+
qed

text \<open>
  A loop whose body re-enables the service of a version exactly when its flag file
  exists, and deletes the flag file.
\<close>

lemma for_each_restoring:
  assumes step: "\<And>w h h' u v. f w h = Inr h' \<Longrightarrow>
            (active h' u = (active h u \<or> (u = get_service_name w \<and> flag_exists h w)))
          \<and> (enabled h' u = (enabled h u \<or> (u = get_service_name w \<and> flag_exists h w)))
          \<and> (flag_exists h' v = (flag_exists h v \<and> v \<noteq> w))"
  shows "for_each f vs h = Inr h' \<Longrightarrow>
     (\<forall>u. active h' u = (active h u \<or> (\<exists>v \<in> set vs. u = get_service_name v \<and> flag_exists h v)))
   \<and> (\<forall>u. enabled h' u = (enabled h u \<or> (\<exists>v \<in> set vs. u = get_service_name v \<and> flag_exists h v)))
   \<and> (\<forall>v. flag_exists h' v = (flag_exists h v \<and> v \<notin> set vs))"
proof (induction vs arbitrary: h)
  case Nil
  then show ?case by simp
next
  case (Cons w ws)
  from Cons.prems obtain h1 where h1: "f w h = Inr h1" and rest: "for_each f ws h1 = Inr h'"
    by (auto simp: bind_eq_Inr)
  note ih = Cons.IH[OF rest]
  have a: "\<And>u. active h1 u = (active h u \<or> (u = get_service_name w \<and> flag_exists h w))"
    and e: "\<And>u. enabled h1 u = (enabled h u \<or> (u = get_service_name w \<and> flag_exists h w))"
    and f: "\<And>v. flag_exists h1 v = (flag_exists h v \<and> v \<noteq> w)"
    using step[OF h1] by blast+
  show ?case
    apply (intro conjI allI)
    subgoal for u using ih a[of u] f by auto
    subgoal for u using ih e[of u] f by auto
    subgoal for v using ih f[of v] by auto
    done
qed

lemma prepare_action_flags:
  assumes "PostgresReinstallModernPackage_prepare_action h = Inr h'" and "get_versions h = Inr vs"
  shows "flag_exists h' v = (flag_exists h v \<or> (v \<in> set vs \<and> active h (get_service_name v)))"
    and "active h' u = (active h u \<and> u \<notin> get_service_name ` set vs)"
    and "enabled h' u = (enabled h u \<and> \<not> (\<exists>v \<in> set vs. u = get_service_name v \<and> active h u))"
proof -
  from assms(1) obtain h1 where l: "leapp_request [''add_repositories_mapping'', ''/etc/yum.repos.d/pgdg-redhat-all.repo''] h = Inr h1"
    and r: "bind (get_versions h1) (\<lambda>vs. for_each prepare_version vs h1) = Inr h'"
    by (auto simp: PostgresReinstallModernPackage_prepare_action_def bind_eq_Inr)
  from l have h1: "h1 = h\<lparr>leapp := leapp h @ [[''add_repositories_mapping'', ''/etc/yum.repos.d/pgdg-redhat-all.repo'']]\<rparr>"
    by (auto simp: leapp_request_def split: if_splits)
  then have "get_versions h1 = Inr vs" using assms(2) by (simp add: get_versions_def)
  with r have "for_each prepare_version vs h1 = Inr h'" by simp
  from for_each_prepare_version[OF this] h1
  show "flag_exists h' v = (flag_exists h v \<or> (v \<in> set vs \<and> active h (get_service_name v)))"
    and "active h' u = (active h u \<and> u \<notin> get_service_name ` set vs)"
    and "enabled h' u = (enabled h u \<and> \<not> (\<exists>v \<in> set vs. u = get_service_name v \<and> active h u))"
    by (simp_all add: flag_exists_def)
qed

lemma enabled_path_not_numeric: "\<not> isnumeric (get_version_enabled_path v)"
proof -
  have "\<not> is_numeric_char CHR ''.''" by (simp add: is_numeric_char_def is_digit_def)
  then show ?thesis by (auto simp: isnumeric_def get_version_enabled_path_def)
qed

lemma prepare_version_versions: "prepare_version w h = Inr h' \<Longrightarrow> get_versions h' = get_versions h"
  by (auto simp: prepare_version_def Let_def bind_eq_Inr logged_check_call_Inr systemctl_def
        create_flag_def get_versions_def enabled_path_not_numeric
      split: if_splits)

lemma for_each_prepare_versions:
  "for_each prepare_version vs h = Inr h' \<Longrightarrow> get_versions h' = get_versions h"
proof (induction vs arbitrary: h)
  case Nil
  then show ?case by simp
next
  case (Cons w ws)
  then show ?case by (auto simp: bind_eq_Inr dest: prepare_version_versions)
qed

lemma prepare_action_versions:
  "PostgresReinstallModernPackage_prepare_action h = Inr h' \<Longrightarrow> get_versions h' = get_versions h"
proof -
  assume "PostgresReinstallModernPackage_prepare_action h = Inr h'"
  then obtain h1 vs where "leapp_request [''add_repositories_mapping'', ''/etc/yum.repos.d/pgdg-redhat-all.repo''] h = Inr h1"
    and "for_each prepare_version vs h1 = Inr h'"
    by (auto simp: PostgresReinstallModernPackage_prepare_action_def bind_eq_Inr)
  moreover from this(1) have "get_versions h1 = get_versions h"
    by (auto simp: leapp_request_def get_versions_def split: if_splits)
  ultimately show ?thesis by (auto dest: for_each_prepare_versions)
qed

lemma restoring_action_services:
  assumes "bind (get_versions h) (\<lambda>vs. for_each f vs h) = Inr h'"
    and "get_versions h = Inr vs" and "v \<in> set vs"
    and step: "\<And>w h h' u v. f w h = Inr h' \<Longrightarrow>
            (active h' u = (active h u \<or> (u = get_service_name w \<and> flag_exists h w)))
          \<and> (enabled h' u = (enabled h u \<or> (u = get_service_name w \<and> flag_exists h w)))
          \<and> (flag_exists h' v = (flag_exists h v \<and> v \<noteq> w))"
  shows "(enabled h' (get_service_name v) \<longleftrightarrow> enabled h (get_service_name v) \<or> flag_exists h v)
       \<and> (active h' (get_service_name v) \<longleftrightarrow> active h (get_service_name v) \<or> flag_exists h v)
       \<and> \<not> flag_exists h' v"
proof -
  from assms(1,2) have "for_each f vs h = Inr h'" by simp
  from for_each_restoring[of f, OF step this] assms(3) show ?thesis by auto
qed

text \<open>
  Claim C3. What \<^verbatim>\<open>PostgresReinstallModernPackage\<close> passes from its prepare phase to its
  post and revert phases is on disk when \<^verbatim>\<open>prepare()\<close> returns, and \<^verbatim>\<open>post()\<close> and
  \<^verbatim>\<open>revert()\<close> read it from there (each phase is a function of the host alone: no value
  of one phase is an argument of another). For every version \<open>v\<close> of the root directory:
  when \<^verbatim>\<open>prepare()\<close> returns, the flag file \<^verbatim>\<open><v>.enabled\<close> exists exactly if it existed
  before or the service \<^verbatim>\<open>postgresql-<v>\<close> was active, and the service is stopped (and
  disabled if it was active); when \<^verbatim>\<open>post()\<close> or \<^verbatim>\<open>revert()\<close> returns, the service is
  enabled and running exactly if it was so before or the flag file existed, and the flag
  file is gone. So after a prepare and a later post or revert, on a host without stale
  flag files, a service runs exactly if it ran before the prepare.
\<close>

theorem flag_files_carry_service_state:
  assumes "get_versions h = Inr vs" and "v \<in> set vs"
  shows "(PostgresReinstallModernPackage_prepare_action h = Inr h' \<longrightarrow>
            (flag_exists h' v \<longleftrightarrow> flag_exists h v \<or> active h (get_service_name v))
            \<and> \<not> active h' (get_service_name v)
            \<and> (active h (get_service_name v) \<longrightarrow> \<not> enabled h' (get_service_name v))
            \<and> get_versions h' = Inr vs)
       \<and> (PostgresReinstallModernPackage_post_action h = Inr h' \<longrightarrow>
            (enabled h' (get_service_name v) \<longleftrightarrow> enabled h (get_service_name v) \<or> flag_exists h v)
            \<and> (active h' (get_service_name v) \<longleftrightarrow> active h (get_service_name v) \<or> flag_exists h v)
            \<and> \<not> flag_exists h' v)
       \<and> (PostgresReinstallModernPackage_revert_action h = Inr h' \<longrightarrow>
            (enabled h' (get_service_name v) \<longleftrightarrow> enabled h (get_service_name v) \<or> flag_exists h v)
            \<and> (active h' (get_service_name v) \<longleftrightarrow> active h (get_service_name v) \<or> flag_exists h v)
            \<and> \<not> flag_exists h' v)
       \<and> (\<not> flag_exists h v \<and> PostgresReinstallModernPackage_prepare_action h = Inr h1
            \<and> (PostgresReinstallModernPackage_post_action h1 = Inr h'
                \<or> PostgresReinstallModernPackage_revert_action h1 = Inr h') \<longrightarrow>
            (active h' (get_service_name v) \<longleftrightarrow> active h (get_service_name v)))"
proof -
  have prep: "\<And>h h'. get_versions h = Inr vs \<Longrightarrow> PostgresReinstallModernPackage_prepare_action h = Inr h' \<Longrightarrow>
            (flag_exists h' v \<longleftrightarrow> flag_exists h v \<or> active h (get_service_name v))
            \<and> \<not> active h' (get_service_name v)
            \<and> (active h (get_service_name v) \<longrightarrow> \<not> enabled h' (get_service_name v))
            \<and> get_versions h' = Inr vs"
    using prepare_action_flags[of _ _ vs] prepare_action_versions assms(2) by auto
  have post: "\<And>h h'. get_versions h = Inr vs \<Longrightarrow> PostgresReinstallModernPackage_post_action h = Inr h' \<Longrightarrow>
            (enabled h' (get_service_name v) \<longleftrightarrow> enabled h (get_service_name v) \<or> flag_exists h v)
            \<and> (active h' (get_service_name v) \<longleftrightarrow> active h (get_service_name v) \<or> flag_exists h v)
            \<and> \<not> flag_exists h' v"
    unfolding PostgresReinstallModernPackage_post_action_def
    by (rule restoring_action_services[where f = post_version and vs = vs, OF _ _ assms(2)])
       (auto dest: post_version_Inr)
  have revert: "\<And>h h'. get_versions h = Inr vs \<Longrightarrow> PostgresReinstallModernPackage_revert_action h = Inr h' \<Longrightarrow>
            (enabled h' (get_service_name v) \<longleftrightarrow> enabled h (get_service_name v) \<or> flag_exists h v)
            \<and> (active h' (get_service_name v) \<longleftrightarrow> active h (get_service_name v) \<or> flag_exists h v)
            \<and> \<not> flag_exists h' v"
    unfolding PostgresReinstallModernPackage_revert_action_def
    by (rule restoring_action_services[where f = restore_version and vs = vs, OF _ _ assms(2)])
       (auto dest: restore_version_Inr)
  have round: "\<not> flag_exists h v \<and> PostgresReinstallModernPackage_prepare_action h = Inr h1
            \<and> (PostgresReinstallModernPackage_post_action h1 = Inr h'
                \<or> PostgresReinstallModernPackage_revert_action h1 = Inr h') \<longrightarrow>
            (active h' (get_service_name v) \<longleftrightarrow> active h (get_service_name v))"
    using prep[OF assms(1), of h1] post[of h1 h'] revert[of h1 h'] by blast
  from prep[OF assms(1), of h'] post[OF assms(1), of h'] revert[OF assms(1), of h'] round
  show ?thesis by blast
qed

theorem flag_files_carry_service_state_witness:
  "get_versions pg_host = Inr [10, 13] \<and> get_versions pg_flagged_host = Inr [10, 13]
   \<and> active pg_host (get_service_name 13) \<and> \<not> flag_exists pg_host 13
   \<and> flag_exists pg_flagged_host 13 \<and> \<not> active pg_flagged_host (get_service_name 13)
   \<and> (case PostgresReinstallModernPackage_prepare_action pg_host of
         Inl e \<Rightarrow> False
       | Inr h' \<Rightarrow> flag_exists h' 13 \<and> \<not> active h' (get_service_name 13)
                   \<and> \<not> enabled h' (get_service_name 13))
   \<and> (case PostgresReinstallModernPackage_post_action pg_flagged_host of
         Inl e \<Rightarrow> False
       | Inr h' \<Rightarrow> enabled h' (get_service_name 13) \<and> active h' (get_service_name 13)
                   \<and> \<not> flag_exists h' 13)"
proof -
  have vs: "get_versions pg_host = Inr [10, 13]" "get_versions pg_flagged_host = Inr [10, 13]"
    by code_simp+
  have pre: "active pg_host (get_service_name 13)" "\<not> flag_exists pg_host 13"
    "flag_exists pg_flagged_host 13" "\<not> active pg_flagged_host (get_service_name 13)"
    by code_simp+
  have ok: "\<not> raises (PostgresReinstallModernPackage_prepare_action pg_host)"
    "\<not> raises (PostgresReinstallModernPackage_post_action pg_flagged_host)"
    by code_simp+
  from ok(1) obtain h1 where h1: "PostgresReinstallModernPackage_prepare_action pg_host = Inr h1"
    by (cases "PostgresReinstallModernPackage_prepare_action pg_host") (auto simp: raises_def)
  from ok(2) obtain h2 where h2: "PostgresReinstallModernPackage_post_action pg_flagged_host = Inr h2"
    by (cases "PostgresReinstallModernPackage_post_action pg_flagged_host") (auto simp: raises_def)
  have in13: "(13::int) \<in> set [10, 13]" by simp
  from flag_files_carry_service_state [OF vs(1) in13, of h1] h1 pre
  have a: "flag_exists h1 13 \<and> \<not> active h1 (get_service_name 13) \<and> \<not> enabled h1 (get_service_name 13)"
    by simp
  from flag_files_carry_service_state [OF vs(2) in13, of h2] h2 pre
  have b: "enabled h2 (get_service_name 13) \<and> active h2 (get_service_name 13) \<and> \<not> flag_exists h2 13"
    by simp
  from vs pre a b h1 h2 show ?thesis by simp
qed

section \<open>The checks and the host\<close>

lemma resolve_regular: "fs p = Some (Regular ls) \<Longrightarrow> resolve n fs p = Some p"
  by (cases n) simp_all

lemma path_exists_regular: "files h p = Some (Regular ls) \<Longrightarrow> path_exists h p"
  by (simp add: path_exists_def resolve_regular)

lemma read_lines_regular: "files h p = Some (Regular ls) \<Longrightarrow> read_lines h p = Inr ls"
  by (simp add: read_lines_def resolve_regular)

lemma locale_try_host:
  assumes "files h (config_path h) = Some (Regular ls)"
  shows "snd (locale_try h) =
           h\<lparr>files := (files h)(config_path h @ ''.bak'' \<mapsto> Regular ls,
                                 config_path h \<mapsto> Regular (''local template1 postgres trust #Added by Plesk'' # ls)),
             active := (active h)(''postgresql'' :=
                          (active h ''postgresql''
                           \<or> exit_status h [''systemctl'', ''reload-or-restart'', ''postgresql''] = 0))\<rparr>"
  using assms
  by (auto simp: locale_try_def backup_file_def push_front_strings_def path_exists_regular
        read_lines_regular logged_check_call_def check_call_def systemctl_def fun_upd_twist
      intro!: ext)

lemma locale_check_host:
  assumes "files h (config_path h) = Some (Regular ls)"
  shows "snd (AssertPostgresLocaleMatchesSystemOne_do_check h) =
           h\<lparr>files := (files h)(config_path h @ ''.bak'' := None),
             active := (active h)(''postgresql'' :=
                          (active h ''postgresql''
                           \<or> exit_status h [''systemctl'', ''reload-or-restart'', ''postgresql''] = 0))\<rparr>"
proof -
  let ?h1 = "snd (locale_try h)"
  have bak: "files ?h1 (config_path h @ ''.bak'') = Some (Regular ls)"
    by (simp add: locale_try_host[OF assms])
  have ex: "path_exists ?h1 (config_path h @ ''.bak'')"
    using bak by (rule path_exists_regular)
  have same: "(files h)(config_path h \<mapsto> Regular ls) = files h"
    using assms by (simp add: fun_upd_idem)
  show ?thesis
    unfolding AssertPostgresLocaleMatchesSystemOne_do_check_def locale_finally_def
    using ex
    by (auto simp: restore_file_from_backup_def locale_try_host[OF assms] same
          logged_check_call_def check_call_def systemctl_def)
qed

lemma plain_checks_leave_host:
  "a \<noteq> AssertPostgresLocaleMatchesSystemOne \<Longrightarrow> snd (check a g) = g"
  by (cases a)
     (simp_all add: PleskInstallerNotInProgress_do_check_def DistroIsCentos79_do_check_def
        DistroIsAlmalinux8_do_check_def PleskVersionIsActual_do_check_def
        AssertOutdatedPostgresNotInstalled_do_check_def Let_def)

text \<open>
  Claim C1, as stated, fails for \<^verbatim>\<open>AssertPostgresLocaleMatchesSystemOne\<close>. The check
  changes the host to ask its question: it puts a trust line in front of \<^verbatim>\<open>pg_hba.conf\<close>
  and runs \<^verbatim>\<open>systemctl reload-or-restart postgresql\<close> before it queries the database, and
  undoes the edit in its \<^verbatim>\<open>finally\<close> block. On a host where the service is stopped, the
  query runs against the edited file and the check, which answers \<^verbatim>\<open>True\<close>, leaves the
  service running.
\<close>

theorem locale_check_changes_host_counterexample:
  "fst (check AssertPostgresLocaleMatchesSystemOne pg_stopped_host) = Inr True
   \<and> file_lines pg_stopped_host (config_path pg_stopped_host) = Some [''local all all peer'']
   \<and> file_lines (snd (locale_try pg_stopped_host)) (config_path pg_stopped_host)
       = Some [''local template1 postgres trust #Added by Plesk'', ''local all all peer'']
   \<and> \<not> active pg_stopped_host ''postgresql''
   \<and> active (snd (check AssertPostgresLocaleMatchesSystemOne pg_stopped_host)) ''postgresql''"
  by code_simp

text \<open>
  Claim C1, amended. Every Check action of the sources other than
  \<^verbatim>\<open>AssertPostgresLocaleMatchesSystemOne\<close> only runs queries and leaves the host exactly
  as it was. \<^verbatim>\<open>AssertPostgresLocaleMatchesSystemOne.check()\<close>, on a host whose
  \<^verbatim>\<open>pg_hba.conf\<close> is a regular file, edits that file and reloads or restarts the service
  for the time of its query, and when it ends (with an answer or an exception)
  \<^verbatim>\<open>pg_hba.conf\<close> has its original content again, every other file but the backup copy
  \<^verbatim>\<open>pg_hba.conf.bak\<close> is as before, no unit's enabled status has changed, no unit other
  than \<^verbatim>\<open>postgresql\<close> has changed its running status, and a \<^verbatim>\<open>postgresql\<close> service that
  was running is running.
\<close>

theorem checks_restore_host:
  assumes "files h (config_path h) = Some (Regular ls)"
    and "check AssertPostgresLocaleMatchesSystemOne h = (r, h')"
  shows "(a \<noteq> AssertPostgresLocaleMatchesSystemOne \<longrightarrow> snd (check a g) = g)
       \<and> files (snd (locale_try h)) (config_path h)
           = Some (Regular (''local template1 postgres trust #Added by Plesk'' # ls))
       \<and> files h' (config_path h) = Some (Regular ls)
       \<and> (\<forall>q. q \<noteq> config_path h @ ''.bak'' \<longrightarrow> files h' q = files h q)
       \<and> enabled h' = enabled h
       \<and> (\<forall>u. u \<noteq> ''postgresql'' \<longrightarrow> active h' u = active h u)
       \<and> (active h ''postgresql'' \<longrightarrow> active h' ''postgresql'')
       \<and> pgsql_root h' = pgsql_root h \<and> leapp h' = leapp h"
proof -
  from assms(2) have h': "h' = snd (AssertPostgresLocaleMatchesSystemOne_do_check h)"
    by simp
  have 1: "a \<noteq> AssertPostgresLocaleMatchesSystemOne \<longrightarrow> snd (check a g) = g"
    by (simp add: plain_checks_leave_host)
  have 2: "files (snd (locale_try h)) (config_path h)
           = Some (Regular (''local template1 postgres trust #Added by Plesk'' # ls))"
    by (simp add: locale_try_host[OF assms(1)])
  have 3: "files h' (config_path h) = Some (Regular ls)"
    using assms(1) by (simp add: h' locale_check_host[OF assms(1)])
  have 4: "\<forall>q. q \<noteq> config_path h @ ''.bak'' \<longrightarrow> files h' q = files h q"
    by (simp add: h' locale_check_host[OF assms(1)])
  have 5: "enabled h' = enabled h" "pgsql_root h' = pgsql_root h" "leapp h' = leapp h"
    by (simp_all add: h' locale_check_host[OF assms(1)])
  have 6: "\<forall>u. u \<noteq> ''postgresql'' \<longrightarrow> active h' u = active h u"
    by (simp add: h' locale_check_host[OF assms(1)])
  have 7: "active h ''postgresql'' \<longrightarrow> active h' ''postgresql''"
    by (simp add: h' locale_check_host[OF assms(1)])
  from 1 2 3 4 5 6 7 show ?thesis by blast
qed

theorem checks_restore_host_witness:
  "files pg_running_host (config_path pg_running_host) = Some (Regular [''local all all peer''])
   \<and> active pg_running_host ''postgresql''
   \<and> files (snd (check AssertPostgresLocaleMatchesSystemOne pg_running_host))
         (config_path pg_running_host) = Some (Regular [''local all all peer''])
   \<and> active (snd (check AssertPostgresLocaleMatchesSystemOne pg_running_host)) ''postgresql''
   \<and> enabled (snd (check AssertPostgresLocaleMatchesSystemOne pg_running_host))
       = enabled pg_running_host
   \<and> snd (check PleskVersionIsActual pg_running_host) = pg_running_host"
proof -
  have f: "files pg_running_host (config_path pg_running_host) = Some (Regular [''local all all peer''])"
    by code_simp
  have a: "active pg_running_host ''postgresql''"
    by code_simp
  have c: "check AssertPostgresLocaleMatchesSystemOne pg_running_host
             = (fst (check AssertPostgresLocaleMatchesSystemOne pg_running_host),
                snd (check AssertPostgresLocaleMatchesSystemOne pg_running_host))"
    by simp
  from checks_restore_host [OF f c, of PleskVersionIsActual pg_running_host] f a
  show ?thesis by simp
qed

section \<open>The pipeline: resumption\<close>

lemma prepares_append [simp]: "prepares (xs @ ys) = prepares xs @ prepares ys"
  by (induction xs rule: prepares.induct) simp_all

lemma posts_append [simp]: "posts (xs @ ys) = posts xs @ posts ys"
  by (induction xs rule: posts.induct) simp_all

lemma reverts_append [simp]: "reverts (xs @ ys) = reverts xs @ reverts ys"
  by (induction xs rule: reverts.induct) simp_all

lemma run_checks_events [simp]:
  "prepares (snd (run_checks b ns)) = []" "posts (snd (run_checks b ns)) = []"
  "reverts (snd (run_checks b ns)) = []"
  by (induction ns) simp_all

lemma load_save [simp]: "load (save r) = r"
  by (simp add: load_def save_def)

lemma load_None [simp]: "load None = initial_record"
  by (simp add: load_def)

lemma mark_simps [simp]:
  "status (mark n p r) = status r"
  "revert_failures (mark n p r) = revert_failures r"
  "(entries (mark n p r) m = None) = (entries r m = None)"
  "(\<exists>e. entries (mark n p r) m = Some e) = (\<exists>e. entries r m = Some e)"
  "phase_of (mark n p r) m = (if m = n \<and> entries r n \<noteq> None then p else phase_of r m)"
  by (auto simp: mark_def phase_of_def split: option.splits)

lemma record_phase_simps [simp]:
  "status (record_phase n q p r) = status r"
  "revert_failures (record_phase n q p r) = revert_failures r"
  "(entries (record_phase n q p r) m = None) = (m \<noteq> n \<and> entries r m = None)"
  "(\<exists>e. entries (record_phase n q p r) m = Some e) = (m = n \<or> (\<exists>e. entries r m = Some e))"
  "phase_of (record_phase n q p r) m = (if m = n then p else phase_of r m)"
  by (auto simp: record_phase_def phase_of_def)

lemma phase_of_update [simp]:
  "phase_of (r\<lparr>status := st\<rparr>) n = phase_of r n"
  "phase_of (r\<lparr>revert_failures := fs\<rparr>) n = phase_of r n"
  by (simp_all add: phase_of_def)

lemma phase_of_entry: "phase_of r n \<noteq> pending \<Longrightarrow> entries r n \<noteq> None"
  by (cases "entries r n") (simp_all add: phase_of_def)

lemma find_Some_holds: "find P xs = Some x \<Longrightarrow> P x \<and> x \<in> set xs"
  by (induction xs) (auto split: if_splits)

lemma prepare_done_entry: "phase_of r n = prepare_done \<Longrightarrow> \<exists>e. entries r n = Some e"
  by (cases "entries r n") (simp_all add: phase_of_def)

text \<open>What one transition invokes, and on which record.\<close>

lemma transition_prepares:
  "n \<in> set (prepares (snd (transition b acts r))) \<Longrightarrow> status r = Preparing \<and> entries r n = None"
  by (cases "status r") (auto simp: transition_def dest: find_Some_holds split: option.splits if_splits)

lemma transition_posts:
  "n \<in> set (posts (snd (transition b acts r))) \<Longrightarrow> status r = Posting \<and> phase_of r n = prepare_done"
  by (cases "status r") (auto simp: transition_def dest: find_Some_holds split: option.splits if_splits)

lemma transition_reverts:
  "n \<in> set (reverts (snd (transition b acts r))) \<Longrightarrow> status r = Reverting \<and> done_phase (phase_of r n)"
  by (cases "status r") (auto simp: transition_def dest: find_Some_holds split: option.splits if_splits)

lemma transition_one_event:
  "length (prepares (snd (transition b acts r))) \<le> 1 \<and> length (posts (snd (transition b acts r))) \<le> 1"
  by (cases "status r") (auto simp: transition_def split: option.splits if_splits)

lemma transition_entries_grow:
  "entries r n \<noteq> None \<Longrightarrow> entries (fst (transition b acts r)) n \<noteq> None"
  by (cases "status r") (auto simp: transition_def split: option.splits if_splits)

lemma transition_consistent:
  assumes "consistent r log"
  shows "consistent (fst (transition b acts r)) (log @ snd (transition b acts r))"
proof (cases "status r")
  case Preparing
  show ?thesis
  proof (cases "find (\<lambda>n. entries r n = None) (active_names acts)")
    case None
    with Preparing assms show ?thesis
      by (auto simp: consistent_def transition_def reverting_def)
  next
    case (Some n)
    from find_Some_holds[OF Some] have "entries r n = None" by simp
    with assms have "n \<notin> set (prepares log)" "n \<notin> set (posts log)"
      by (auto simp: consistent_def)
    with Preparing Some assms show ?thesis
      by (auto simp: consistent_def transition_def reverting_def)
  qed
next
  case Posting
  show ?thesis
  proof (cases "find (\<lambda>n. phase_of r n = prepare_done) (active_names acts)")
    case None
    with Posting assms show ?thesis
      by (auto simp: consistent_def transition_def reverting_def)
  next
    case (Some n)
    from find_Some_holds[OF Some] have p: "phase_of r n = prepare_done" by simp
    then have e: "\<exists>e. entries r n = Some e" by (rule prepare_done_entry)
    from p Posting assms have "n \<notin> set (posts log)"
      by (auto simp: consistent_def reverting_def)
    with Posting Some assms e show ?thesis
      by (auto simp: consistent_def transition_def reverting_def)
  qed
next
  case Reverting
  with assms show ?thesis
    by (cases "find (\<lambda>n. done_phase (phase_of r n)) (rev (active_names acts))")
       (auto simp: consistent_def transition_def reverting_def)
qed (use assms in \<open>auto simp: consistent_def transition_def reverting_def\<close>)

lemma step_consistent:
  "consistent (load (fst s)) (snd s) \<Longrightarrow> consistent (load (fst (step b acts s))) (snd (step b acts s))"
  by (simp add: step_def transition_consistent)

lemma run_process_consistent:
  "consistent (load (fst s)) (snd s) \<Longrightarrow>
   consistent (load (fst (run_process k b acts s))) (snd (run_process k b acts s))"
  by (induction k arbitrary: s) (simp_all add: step_consistent)

lemma invoke_consistent:
  "consistent (load (fst s)) (snd s) \<Longrightarrow>
   consistent (load (fst (invoke k b acts s))) (snd (invoke k b acts s))"
  by (simp add: invoke_def resume_def run_process_consistent step_consistent)

lemma foldl_preserves: "P s \<Longrightarrow> (\<And>s k. P s \<Longrightarrow> P (f s k)) \<Longrightarrow> P (foldl f s ks)"
  by (induction ks arbitrary: s) simp_all

lemma history_consistent:
  "consistent (load (fst (history b acts ks))) (snd (history b acts ks))"
proof -
  have "consistent (load (fst (None, []))) (snd (None, []))"
    by (simp add: consistent_def initial_record_def)
  then show ?thesis
    unfolding history_def
    by (rule foldl_preserves[where P = "\<lambda>s. consistent (load (fst s)) (snd s)"])
       (rule invoke_consistent)
qed

text \<open>What a process invokes, in terms of the record it started from.\<close>

lemma transition_into_posting:
  "status (fst (transition b acts r)) = Resuming \<or> status (fst (transition b acts r)) = Posting \<Longrightarrow>
   status r = AwaitingExternalConversion \<or> status r = Resuming \<or> status r = Posting"
  by (cases "status r") (auto simp: transition_def split: option.splits if_splits)

lemma transition_keeps_prepare_done:
  "status r = Resuming \<or> status r = Posting \<or> status r = AwaitingExternalConversion \<Longrightarrow>
   phase_of (fst (transition b acts r)) n = prepare_done \<Longrightarrow> phase_of r n = prepare_done"
  by (cases "status r") (auto simp: transition_def split: option.splits if_splits)

lemma run_process_new:
  "\<exists>new. snd (run_process k b acts s) = snd s @ new
     \<and> (\<forall>n \<in> set (prepares new). entries (load (fst s)) n = None)
     \<and> (\<forall>n \<in> set (posts new).
          (status (load (fst s)) = Resuming \<or> status (load (fst s)) = Posting)
          \<and> phase_of (load (fst s)) n = prepare_done)"
proof (induction k arbitrary: s)
  case 0
  then show ?case by simp
next
  case (Suc k)
  show ?case
  proof (cases "ended (status (load (fst s)))")
    case True
    then show ?thesis by simp
  next
    case False
    let ?r = "load (fst s)"
    let ?t = "transition b acts ?r"
    from Suc[of "step b acts s"] obtain new where
      n1: "snd (run_process k b acts (step b acts s)) = snd (step b acts s) @ new"
      and n2: "\<forall>n \<in> set (prepares new). entries (fst ?t) n = None"
      and n3: "\<forall>n \<in> set (posts new).
                 (status (fst ?t) = Resuming \<or> status (fst ?t) = Posting)
                 \<and> phase_of (fst ?t) n = prepare_done"
      by (auto simp: step_def)
    have a: "snd (run_process (Suc k) b acts s) = snd s @ (snd ?t @ new)"
      using False n1 by (simp add: step_def)
    have b: "\<forall>n \<in> set (prepares (snd ?t @ new)). entries ?r n = None"
    proof
      fix n assume "n \<in> set (prepares (snd ?t @ new))"
      then consider "n \<in> set (prepares (snd ?t))" | "n \<in> set (prepares new)" by auto
      then show "entries ?r n = None"
      proof cases
        case 1
        then show ?thesis using transition_prepares[of n b acts ?r] by simp
      next
        case 2
        with n2 have "entries (fst ?t) n = None" by simp
        then show ?thesis using transition_entries_grow[of ?r n b acts] by blast
      qed
    qed
    have c: "\<forall>n \<in> set (posts (snd ?t @ new)).
               (status ?r = Resuming \<or> status ?r = Posting) \<and> phase_of ?r n = prepare_done"
    proof
      fix n assume "n \<in> set (posts (snd ?t @ new))"
      then consider "n \<in> set (posts (snd ?t))" | "n \<in> set (posts new)" by auto
      then show "(status ?r = Resuming \<or> status ?r = Posting) \<and> phase_of ?r n = prepare_done"
      proof cases
        case 1
        then show ?thesis using transition_posts[of n b acts ?r] by simp
      next
        case 2
        with n3 have st: "status (fst ?t) = Resuming \<or> status (fst ?t) = Posting"
          and ph: "phase_of (fst ?t) n = prepare_done" by auto
        from transition_into_posting[OF st] False
        have st': "status ?r = Resuming \<or> status ?r = Posting" by (auto simp: ended_def)
        then show ?thesis using transition_keeps_prepare_done[of ?r b acts n] ph by auto
      qed
    qed
    from a b c show ?thesis by blast
  qed
qed

lemma invoke_new:
  "\<exists>new. snd (invoke k b acts s) = snd s @ new
     \<and> (\<forall>n \<in> set (prepares new). entries (load (fst s)) n = None)
     \<and> (\<forall>n \<in> set (posts new). phase_of (load (fst s)) n = prepare_done)"
proof (cases "status (load (fst s)) = AwaitingExternalConversion")
  case False
  then show ?thesis using run_process_new[of k b acts s] by (auto simp: invoke_def resume_def)
next
  case True
  let ?r = "load (fst s)"
  have st: "step b acts s = (save (?r\<lparr>status := Resuming\<rparr>), snd s)"
    using True by (simp add: step_def transition_def)
  from run_process_new[of k b acts "step b acts s"] obtain new where
    "snd (run_process k b acts (step b acts s)) = snd s @ new"
    "\<forall>n \<in> set (prepares new). entries ?r n = None"
    "\<forall>n \<in> set (posts new). phase_of ?r n = prepare_done"
    by (auto simp: st)
  then show ?thesis using True by (auto simp: invoke_def resume_def)
qed

text \<open>Every process ends: each save brings the record closer to a status that ends it.\<close>

lemma filter_le: "(\<And>m. Q m \<Longrightarrow> P m) \<Longrightarrow> length (filter Q xs) \<le> length (filter P xs)"
  by (induction xs) auto

lemma filter_shrinks:
  assumes "n \<in> set xs" and "P n" and "\<not> Q n" and imp: "\<And>m. Q m \<Longrightarrow> P m"
  shows "length (filter Q xs) < length (filter P xs)"
  using assms(1)
proof (induction xs)
  case Nil
  then show ?case by simp
next
  case (Cons x xs)
  show ?case
  proof (cases "x = n")
    case True
    with assms(2,3) filter_le[of Q P xs, OF imp] show ?thesis by simp
  next
    case False
    with Cons have "length (filter Q xs) < length (filter P xs)" by simp
    then show ?thesis using imp[of x] by auto
  qed
qed

lemma remaining_zero: "remaining acts r = 0 \<Longrightarrow> ended (status r)"
  by (cases "status r") (simp_all add: remaining_def ended_def Let_def)

lemma remaining_le_enough: "remaining acts r < enough acts"
proof -
  have c: "length (filter P (active_names acts)) \<le> length (active_names acts)" for P
    by simp
  note c1 = c[of "\<lambda>n. entries r n = None"] and c2 = c[of "\<lambda>n. phase_of r n = prepare_done"]
    and c3 = c[of "\<lambda>n. done_phase (phase_of r n)"]
  show ?thesis
    apply (cases "status r"; simp add: remaining_def enough_def Let_def)
    using c1 c2 c3 by linarith+
qed

lemma transition_decreases:
  assumes "\<not> ended (status r)"
  shows "remaining acts (fst (transition b acts r)) < remaining acts r"
proof -
  let ?names = "active_names acts"
  have le: "length (filter P ?names) \<le> length ?names" for P by simp
  show ?thesis
  proof (cases "status r")
    case NotStarted
    then show ?thesis by (simp add: remaining_def transition_def Let_def)
  next
    case Checking
    then show ?thesis
      apply (simp add: remaining_def transition_def Let_def)
      using le[of "\<lambda>n. entries r n = None"] by linarith
  next
    case Preparing
    show ?thesis
    proof (cases "find (\<lambda>n. entries r n = None) ?names")
      case None
      with Preparing show ?thesis by (simp add: remaining_def transition_def Let_def)
    next
      case (Some n)
      from find_Some_holds[OF Some] have n: "entries r n = None" "n \<in> set ?names" by simp_all
      have shrink: "length (filter (\<lambda>m. m \<noteq> n \<and> entries r m = None) ?names)
                     < length (filter (\<lambda>m. entries r m = None) ?names)"
        by (rule filter_shrinks[OF n(2)]) (use n in auto)
      from Preparing Some shrink show ?thesis
        apply (auto simp: remaining_def transition_def Let_def)
        by (rule le_less_trans[OF length_filter_le], simp)
    qed
  next
    case Resuming
    then show ?thesis
      apply (simp add: remaining_def transition_def Let_def)
      using le[of "\<lambda>n. phase_of r n = prepare_done"] by linarith
  next
    case Posting
    show ?thesis
    proof (cases "find (\<lambda>n. phase_of r n = prepare_done) ?names")
      case None
      with Posting show ?thesis by (simp add: remaining_def transition_def Let_def)
    next
      case (Some n)
      from find_Some_holds[OF Some] have n: "phase_of r n = prepare_done" "n \<in> set ?names"
        by simp_all
      from prepare_done_entry[OF n(1)] have e: "entries r n \<noteq> None" by simp
      have shrink: "length (filter (\<lambda>m. (if m = n \<and> entries r n \<noteq> None then post_done else phase_of r m)
                                          = prepare_done) ?names)
                     < length (filter (\<lambda>m. phase_of r m = prepare_done) ?names)"
        by (rule filter_shrinks[OF n(2)]) (use n e in \<open>auto split: if_splits\<close>)
      from Posting Some shrink show ?thesis
        apply (auto simp: remaining_def transition_def Let_def)
        by (rule le_less_trans[OF length_filter_le], simp)
    qed
  next
    case Reverting
    show ?thesis
    proof (cases "find (\<lambda>n. done_phase (phase_of r n)) (rev ?names)")
      case None
      with Reverting show ?thesis by (simp add: remaining_def transition_def Let_def)
    next
      case (Some n)
      from find_Some_holds[OF Some] have n: "done_phase (phase_of r n)" "n \<in> set ?names"
        by simp_all
      then have e: "entries r n \<noteq> None"
        by (cases "entries r n") (simp_all add: phase_of_def done_phase_def)
      have shrink: "length (filter (\<lambda>m. done_phase (if m = n \<and> entries r n \<noteq> None then p else phase_of r m)) ?names)
                     < length (filter (\<lambda>m. done_phase (phase_of r m)) ?names)"
        if "\<not> done_phase p" for p
        by (rule filter_shrinks[OF n(2)]) (use n e that in \<open>auto split: if_splits\<close>)
      from Reverting Some shrink[of reverted] shrink[of failed] show ?thesis
        by (auto simp: remaining_def transition_def Let_def done_phase_def)
    qed
  qed (use assms in \<open>simp_all add: ended_def\<close>)
qed

lemma run_process_ends:
  "remaining acts (load (fst s)) \<le> k \<Longrightarrow> ended (status (load (fst (run_process k b acts s))))"
proof (induction k arbitrary: s)
  case 0
  then show ?case by (simp add: remaining_zero)
next
  case (Suc k)
  show ?case
  proof (cases "ended (status (load (fst s)))")
    case True
    then show ?thesis by simp
  next
    case False
    from transition_decreases[OF False, of acts b] Suc.prems
    have "remaining acts (load (fst (step b acts s))) \<le> k" by (simp add: step_def)
    from Suc.IH[OF this] False show ?thesis by simp
  qed
qed

lemma invoke_ends: "ended (status (load (fst (invoke (enough acts) b acts s))))"
  unfolding invoke_def
  by (rule run_process_ends) (rule less_imp_le, rule remaining_le_enough)


text \<open>Every process makes a number of steps, and a step leaves a terminal state as it is.\<close>

lemma step_terminal: "terminal (status (load (fst s))) \<Longrightarrow> step b acts s = s"
proof -
  assume t: "terminal (status (load (fst s)))"
  then obtain r where r: "fst s = Some r"
    by (cases "fst s") (auto simp: terminal_def load_def initial_record_def)
  with t have "transition b acts r = (r, [])"
    by (auto simp: transition_def terminal_def load_def)
  with r show ?thesis by (simp add: step_def load_def save_def prod_eq_iff)
qed

lemma steps_terminal: "terminal (status (load (fst s))) \<Longrightarrow> (step b acts ^^ m) s = s"
  by (induction m) (simp_all add: step_terminal)

lemma run_process_ended: "ended (status (load (fst s))) \<Longrightarrow> run_process k b acts s = s"
  by (cases k) simp_all

lemma run_process_steps: "\<exists>m. run_process k b acts s = (step b acts ^^ m) s"
proof (induction k arbitrary: s)
  case 0
  have "run_process 0 b acts s = (step b acts ^^ 0) s" by simp
  then show ?case by blast
next
  case (Suc k)
  show ?case
  proof (cases "ended (status (load (fst s)))")
    case True
    then have "run_process (Suc k) b acts s = (step b acts ^^ 0) s" by simp
    then show ?thesis by blast
  next
    case False
    from Suc[of "step b acts s"] obtain m where
      "run_process k b acts (step b acts s) = (step b acts ^^ m) (step b acts s)" by blast
    with False have "run_process (Suc k) b acts s = (step b acts ^^ Suc m) s"
      by (simp add: funpow_swap1)
    then show ?thesis by blast
  qed
qed

lemma invoke_steps: "\<exists>m. invoke k b acts s = (step b acts ^^ m) s"
proof -
  from run_process_steps[of k b acts "resume b acts s"] obtain m where
    m: "invoke k b acts s = (step b acts ^^ m) (resume b acts s)" by (auto simp: invoke_def)
  show ?thesis
  proof (cases "status (load (fst s)) = AwaitingExternalConversion")
    case True
    with m have "invoke k b acts s = (step b acts ^^ Suc m) s"
      by (simp add: resume_def funpow_swap1)
    then show ?thesis by blast
  next
    case False
    with m show ?thesis by (auto simp: resume_def)
  qed
qed

lemma history_steps: "\<exists>m. history b acts ks = (step b acts ^^ m) (None, [])"
proof -
  have "\<exists>m. (None, []) = (step b acts ^^ m) (None, [])" by (rule exI[of _ 0]) simp
  then show ?thesis
    unfolding history_def
  proof (rule foldl_preserves[where P = "\<lambda>s. \<exists>m. s = (step b acts ^^ m) (None, [])"])
    fix s :: "store \<times> event list" and k
    assume "\<exists>m. s = (step b acts ^^ m) (None, [])"
    then obtain m where m: "s = (step b acts ^^ m) (None, [])" by blast
    from invoke_steps[of k b acts s] obtain j where "invoke k b acts s = (step b acts ^^ j) s" by blast
    with m have "invoke k b acts s = (step b acts ^^ (j + m)) (None, [])" by (simp add: funpow_add)
    then show "\<exists>m. invoke k b acts s = (step b acts ^^ m) (None, [])" by blast
  qed
qed

lemma finish_steps: "\<exists>m. finish b acts s = (step b acts ^^ m) s"
proof -
  from invoke_steps[of "enough acts" b acts s] obtain i where
    i: "invoke (enough acts) b acts s = (step b acts ^^ i) s" by blast
  from invoke_steps[of "enough acts" b acts "invoke (enough acts) b acts s"] obtain j where
    "finish b acts s = (step b acts ^^ j) (invoke (enough acts) b acts s)" by (auto simp: finish_def)
  with i have "finish b acts s = (step b acts ^^ (j + i)) s" by (simp add: funpow_add)
  then show ?thesis by blast
qed

lemma transition_past:
  "past_boundary (status r) \<Longrightarrow> past_boundary (status (fst (transition b acts r)))"
  by (cases "status r")
     (auto simp: transition_def past_boundary_def terminal_def split: option.splits)

lemma run_process_past:
  "past_boundary (status (load (fst s))) \<Longrightarrow>
   past_boundary (status (load (fst (run_process k b acts s))))"
  by (induction k arbitrary: s) (simp_all add: step_def transition_past)

lemma invoke_resumed_terminal:
  assumes "status (load (fst s)) = AwaitingExternalConversion"
  shows "terminal (status (load (fst (invoke (enough acts) b acts s))))"
proof -
  have "past_boundary (status (load (fst (resume b acts s))))"
    using assms by (simp add: resume_def step_def transition_def past_boundary_def)
  then have "past_boundary (status (load (fst (invoke (enough acts) b acts s))))"
    unfolding invoke_def by (rule run_process_past)
  with invoke_ends[of acts b s] show ?thesis
    by (auto simp: past_boundary_def ended_def terminal_def)
qed

lemma finish_terminal: "terminal (status (load (fst (finish b acts s))))"
proof -
  let ?s1 = "invoke (enough acts) b acts s"
  show ?thesis
  proof (cases "status (load (fst ?s1)) = AwaitingExternalConversion")
    case True
    then show ?thesis unfolding finish_def by (rule invoke_resumed_terminal)
  next
    case False
    with invoke_ends[of acts b s] have t: "terminal (status (load (fst ?s1)))"
      by (auto simp: ended_def terminal_def)
    then have "ended (status (load (fst ?s1)))" by (auto simp: ended_def terminal_def)
    with False have "finish b acts s = ?s1"
      by (simp add: finish_def invoke_def resume_def run_process_ended)
    with t show ?thesis by simp
  qed
qed

lemma iterates_agree:
  assumes "s1 = (f ^^ n) x" and "s2 = (f ^^ m) x"
    and f1: "\<And>j. (f ^^ j) s1 = s1" and f2: "\<And>j. (f ^^ j) s2 = s2"
  shows "s1 = s2"
proof (cases "n \<le> m")
  case True
  then obtain d where "m = d + n" using le_Suc_ex[of n m] by (auto simp: add.commute)
  then have "s2 = (f ^^ d) s1" using assms(1,2) by (simp add: funpow_add)
  with f1 show ?thesis by simp
next
  case False
  then obtain d where "n = d + m" using le_Suc_ex[of m n] by (auto simp: add.commute)
  then have "s1 = (f ^^ d) s2" using assms(1,2) by (simp add: funpow_add)
  with f2 show ?thesis by simp
qed

lemma finish_history: "finish b acts (history b acts ks) = uninterrupted b acts"
proof -
  from history_steps[of b acts ks] obtain i where i: "history b acts ks = (step b acts ^^ i) (None, [])"
    by blast
  from finish_steps[of b acts "history b acts ks"] obtain j where
    "finish b acts (history b acts ks) = (step b acts ^^ j) (history b acts ks)" by blast
  with i have a: "finish b acts (history b acts ks) = (step b acts ^^ (j + i)) (None, [])"
    by (simp add: funpow_add)
  from finish_steps[of b acts "(None, [])"] obtain m where
    c: "uninterrupted b acts = (step b acts ^^ m) (None, [])" by (auto simp: uninterrupted_def)
  show ?thesis
    by (rule iterates_agree[OF a c])
       (simp_all add: steps_terminal finish_terminal uninterrupted_def)
qed
lemma recorded_required_simps [simp]:
  "recorded_required (mark n p r) m = recorded_required r m"
  "recorded_required (record_phase n q p r) m = (if m = n then q else recorded_required r m)"
  "recorded_required (r\<lparr>status := st\<rparr>) m = recorded_required r m"
  "recorded_required (r\<lparr>revert_failures := fs\<rparr>) m = recorded_required r m"
  by (auto simp: recorded_required_def mark_def record_phase_def split: option.splits)

lemma recorded_required_entry: "recorded_required r n \<Longrightarrow> entries r n \<noteq> None"
  by (cases "entries r n") (simp_all add: recorded_required_def)

lemma steps_preserve: "P x \<Longrightarrow> (\<And>s. P s \<Longrightarrow> P (f s)) \<Longrightarrow> P ((f ^^ m) x)"
  by (induction m) simp_all

lemma accounted_at:
  assumes "accounted b names r log"
  shows "(entries r n \<noteq> None \<longrightarrow> n \<in> set names \<and> recorded_required r n = is_required b n)
          \<and> (phase_of r n = prepare_done \<longrightarrow> recorded_required r n)
          \<and> (n \<in> set (prepares log) \<longleftrightarrow> recorded_required r n)
          \<and> (\<not> reverting (status r) \<longrightarrow>
                (entries r n \<noteq> None \<longrightarrow> done_phase (phase_of r n))
                \<and> (n \<in> set (posts log) \<longleftrightarrow> recorded_required r n \<and> phase_of r n = post_done))
          \<and> (status r = AwaitingExternalConversion \<or> status r = Resuming \<or> status r = Posting
                \<or> status r = Completed \<longrightarrow> n \<in> set names \<longrightarrow> entries r n \<noteq> None)
          \<and> (status r = Completed \<longrightarrow> n \<in> set names \<longrightarrow> phase_of r n \<noteq> prepare_done)"
  using assms unfolding accounted_def by (rule spec)

lemma accounted_status:
  assumes a: "accounted b names r log" and "\<not> reverting st \<Longrightarrow> \<not> reverting (status r)"
    and "st = AwaitingExternalConversion \<or> st = Resuming \<or> st = Posting \<or> st = Completed
         \<Longrightarrow> \<forall>m \<in> set names. entries r m \<noteq> None"
    and "st = Completed \<Longrightarrow> \<forall>m \<in> set names. phase_of r m \<noteq> prepare_done"
  shows "accounted b names (r\<lparr>status := st\<rparr>) log"
  unfolding accounted_def
  apply (rule allI)
  subgoal for m using accounted_at[OF a, of m] assms(2-4) by simp
  done

lemma accounted_log:
  assumes a: "accounted b names r log" and "prepares new = []" and "posts new = []"
  shows "accounted b names r (log @ new)"
  unfolding accounted_def
  apply (rule allI)
  subgoal for m using accounted_at[OF a, of m] assms(2,3) by simp
  done

lemma transition_accounted:
  assumes a: "accounted b (active_names acts) r log"
  shows "accounted b (active_names acts) (fst (transition b acts r)) (log @ snd (transition b acts r))"
proof -
  let ?names = "active_names acts"
  show ?thesis
  proof (cases "status r")
    case NotStarted
    then show ?thesis
      by (simp add: transition_def) (rule accounted_status[OF a], simp_all add: reverting_def)
  next
    case Checking
    have l: "accounted b ?names r (log @ snd (run_checks b (check_names acts)))"
      using a by (rule accounted_log) simp_all
    have "accounted b ?names (r\<lparr>status := st\<rparr>) (log @ snd (run_checks b (check_names acts)))"
      if "st = Preparing \<or> st = Failed" for st
      using that Checking by (intro accounted_status[OF l]) (auto simp: reverting_def)
    with Checking show ?thesis by (simp add: transition_def)
  next
    case Preparing
    show ?thesis
    proof (cases "find (\<lambda>n. entries r n = None) ?names")
      case None
      then have all: "\<forall>n \<in> set ?names. entries r n \<noteq> None"
        by (auto simp: find_None_iff)
      have "accounted b ?names (r\<lparr>status := AwaitingExternalConversion\<rparr>) log"
        using Preparing all by (intro accounted_status[OF a]) (auto simp: reverting_def)
      with Preparing None show ?thesis by (simp add: transition_def)
    next
      case (Some n)
      from find_Some_holds[OF Some] have n: "entries r n = None" "n \<in> set ?names"
        by simp_all
      then have nr: "\<not> recorded_required r n" using recorded_required_entry by blast
      with accounted_at[OF a, of n] have np: "n \<notin> set (prepares log)" by simp
      from Preparing accounted_at[OF a, of n] nr have npo: "n \<notin> set (posts log)"
        by (simp add: reverting_def)
      have ph: "phase_of r n \<noteq> prepare_done" using accounted_at[OF a, of n] nr by blast
      show ?thesis
      proof (cases "is_required b n")
        case False
        have "accounted b ?names (record_phase n False post_done r) log"
          unfolding accounted_def
          apply (rule allI)
          subgoal for m
            using accounted_at[OF a, of m] False n nr np npo Preparing
            by (auto simp: reverting_def done_phase_def)
          done
        with Preparing Some False show ?thesis by (simp add: transition_def)
      next
        case True
        show ?thesis
        proof (cases "prepare_ok b n")
          case ok: True
          have "accounted b ?names (record_phase n True prepare_done r) (log @ [Prepare n])"
            unfolding accounted_def
            apply (rule allI)
            subgoal for m
              using accounted_at[OF a, of m] True n nr np npo Preparing
              by (auto simp: reverting_def done_phase_def)
            done
          with Preparing Some True ok show ?thesis by (simp add: transition_def)
        next
          case bad: False
          have "accounted b ?names ((record_phase n True failed r)\<lparr>status := Reverting\<rparr>)
                  (log @ [Prepare n])"
            unfolding accounted_def
            apply (rule allI)
            subgoal for m
              using accounted_at[OF a, of m] True n nr np npo
              by (auto simp: reverting_def done_phase_def)
            done
          with Preparing Some True bad show ?thesis by (simp add: transition_def)
        qed
      qed
    qed
  next
    case AwaitingExternalConversion
    have "accounted b ?names (r\<lparr>status := Resuming\<rparr>) log"
      using AwaitingExternalConversion accounted_at[OF a]
      by (intro accounted_status[OF a]) (auto simp: reverting_def)
    with AwaitingExternalConversion show ?thesis by (simp add: transition_def)
  next
    case Resuming
    have "accounted b ?names (r\<lparr>status := Posting\<rparr>) log"
      using Resuming accounted_at[OF a]
      by (intro accounted_status[OF a]) (auto simp: reverting_def)
    with Resuming show ?thesis by (simp add: transition_def)
  next
    case Posting
    show ?thesis
    proof (cases "find (\<lambda>n. phase_of r n = prepare_done) ?names")
      case None
      then have all: "\<forall>n \<in> set ?names. phase_of r n \<noteq> prepare_done"
        by (auto simp: find_None_iff)
      have "accounted b ?names (r\<lparr>status := Completed\<rparr>) log"
        using Posting all accounted_at[OF a]
        by (intro accounted_status[OF a]) (auto simp: reverting_def)
      with Posting None show ?thesis by (simp add: transition_def)
    next
      case (Some n)
      from find_Some_holds[OF Some] have ph: "phase_of r n = prepare_done" by simp
      then have e: "entries r n \<noteq> None" using prepare_done_entry by blast
      from accounted_at[OF a, of n] ph have rq: "recorded_required r n" by blast
      from Posting accounted_at[OF a, of n] ph have npo: "n \<notin> set (posts log)"
        by (simp add: reverting_def)
      show ?thesis
      proof (cases "post_ok b n")
        case True
        have "accounted b ?names (mark n post_done r) (log @ [Post n])"
          unfolding accounted_def
          apply (rule allI)
          subgoal for m
            using accounted_at[OF a, of m] ph e rq npo Posting
            by (auto simp: reverting_def done_phase_def split: if_splits)
          done
        with Posting Some True show ?thesis by (simp add: transition_def)
      next
        case False
        have "accounted b ?names (r\<lparr>status := Reverting\<rparr>) (log @ [Post n])"
          unfolding accounted_def
          apply (rule allI)
          subgoal for m
            using accounted_at[OF a, of m]
            by (auto simp: reverting_def)
          done
        with Posting Some False show ?thesis by (simp add: transition_def)
      qed
    qed
  next
    case Reverting
    show ?thesis
    proof (cases "find (\<lambda>n. done_phase (phase_of r n)) (rev ?names)")
      case None
      have "accounted b ?names (r\<lparr>status := st\<rparr>) log" if "reverting st" for st
        using that by (intro accounted_status[OF a]) (auto simp: reverting_def)
      from this[of Reverted] this[of Failed] Reverting None show ?thesis
        by (simp add: transition_def reverting_def)
    next
      case (Some n)
      have m: "accounted b ?names (mark n ph r) (log @ [Revert n])" if "ph \<noteq> prepare_done" for ph
        unfolding accounted_def
        apply (rule allI)
        subgoal for m
          using accounted_at[OF a, of m] that Reverting
          by (auto simp: reverting_def split: if_splits)
        done
      have "accounted b ?names ((mark n failed r)\<lparr>revert_failures := revert_failures r @ [n]\<rparr>)
              (log @ [Revert n])"
        using m[of failed] by (simp add: accounted_def)
      with m[of reverted] Reverting Some show ?thesis by (simp add: transition_def)
    qed
  next
    case Completed
    with a show ?thesis by (simp add: transition_def)
  next
    case Failed
    with a show ?thesis by (simp add: transition_def)
  next
    case Reverted
    with a show ?thesis by (simp add: transition_def)
  qed
qed

lemma history_accounted:
  "accounted b (active_names acts) (load (fst (history b acts ks))) (snd (history b acts ks))"
proof -
  from history_steps[of b acts ks] obtain m where
    m: "history b acts ks = (step b acts ^^ m) (None, [])" by blast
  have i: "accounted b (active_names acts) (load (fst (None, []))) (snd (None, []))"
    by (simp add: accounted_def initial_record_def recorded_required_def phase_of_def reverting_def)
  have "accounted b (active_names acts) (load (fst ((step b acts ^^ m) (None, []))))
          (snd ((step b acts ^^ m) (None, [])))"
    using i
    by (rule steps_preserve[where P = "\<lambda>s. accounted b (active_names acts) (load (fst s)) (snd s)"])
       (simp add: step_def transition_accounted)
  with m show ?thesis by simp
qed

lemma run_checks_pass: "\<forall>n. check_passes b n \<Longrightarrow> fst (run_checks b ns)"
  by (induction ns) simp_all

lemma transition_forward:
  assumes "\<forall>n. check_passes b n" and "\<forall>n. prepare_ok b n" and "\<forall>n. post_ok b n"
    and "\<not> reverting (status r)"
  shows "\<not> reverting (status (fst (transition b acts r)))"
  using assms
  by (cases "status r")
     (auto simp: transition_def reverting_def run_checks_pass split: option.splits)

lemma history_forward:
  assumes "\<forall>n. check_passes b n" and "\<forall>n. prepare_ok b n" and "\<forall>n. post_ok b n"
  shows "\<not> reverting (status (load (fst (history b acts ks))))"
proof -
  from history_steps[of b acts ks] obtain m where
    m: "history b acts ks = (step b acts ^^ m) (None, [])" by blast
  have i: "\<not> reverting (status (load (fst (None :: store, [] :: event list))))"
    by (simp add: initial_record_def reverting_def)
  have "\<not> reverting (status (load (fst ((step b acts ^^ m) (None, [])))))"
    using i
    by (rule steps_preserve[where P = "\<lambda>s. \<not> reverting (status (load (fst s)))"])
       (simp add: step_def transition_forward[OF assms])
  with m show ?thesis by simp
qed


lemma accounted_completed:
  assumes a: "accounted b names r log" and c: "status r = Completed"
  shows "set (prepares log) = {n \<in> set names. is_required b n}"
    and "set (posts log) = {n \<in> set names. is_required b n}"
proof -
  have nr: "\<not> reverting (status r)" using c by (simp add: reverting_def)
  have pr: "n \<in> set (prepares log) \<longleftrightarrow> n \<in> set names \<and> is_required b n" for n
  proof (cases "entries r n = None")
    case True
    with accounted_at[OF a, of n] c recorded_required_entry[of r n] show ?thesis by auto
  next
    case False
    with accounted_at[OF a, of n] show ?thesis by auto
  qed
  have po: "n \<in> set (posts log) \<longleftrightarrow> n \<in> set names \<and> is_required b n" for n
  proof (cases "entries r n = None")
    case True
    with accounted_at[OF a, of n] c nr recorded_required_entry[of r n] show ?thesis by auto
  next
    case False
    with accounted_at[OF a, of n] nr have d: "done_phase (phase_of r n)" and i: "n \<in> set names"
      and q: "recorded_required r n = is_required b n"
      and p: "n \<in> set (posts log) \<longleftrightarrow> recorded_required r n \<and> phase_of r n = post_done"
      by blast+
    from accounted_at[OF a, of n] c i have "phase_of r n \<noteq> prepare_done" by blast
    with d have "phase_of r n = post_done" by (simp add: done_phase_def)
    with p q i show ?thesis by simp
  qed
  from pr show "set (prepares log) = {n \<in> set names. is_required b n}" by blast
  from po show "set (posts log) = {n \<in> set names. is_required b n}" by blast
qed


lemma uninterrupted_history: "uninterrupted b acts = history b acts [enough acts, enough acts]"
  by (simp add: uninterrupted_def finish_def history_def)

text \<open>
  Claim C4 (on the Pipeline Runner as the spec describes it). Take any run so far: any
  sequence of Runner processes, each killed immediately after one of its saves or ended
  by itself, and the process that then reloads the record and resumes.

  It re-invokes nothing: it only adds invocations; it invokes \<open>prepare()\<close> only for
  actions that have no entry in the record it loaded, and \<open>post()\<close> only for actions that
  record holds as \<open>prepare_done\<close> (so for none that is \<open>post_done\<close>); over the whole run no
  action's \<open>prepare()\<close> and no action's \<open>post()\<close> is invoked twice.

  It continues forward progress: if it is not killed, it reaches the reboot boundary or
  a terminal state within \<open>enough\<close> saves, and a terminal state if the record it loaded
  stood at the reboot boundary; the run finished from there (this process and the one
  after the reboot, not killed) ends in a terminal state, with the same record and the
  same invocations in the same order as the run that was never killed. A run that is
  \<open>Completed\<close> has invoked \<open>prepare()\<close> and \<open>post()\<close> for exactly the required actions of
  the list; and when every check passes and every \<open>prepare()\<close> and \<open>post()\<close> succeeds, the
  finished run is \<open>Completed\<close>.
\<close>

theorem resumption_repeats_no_phase:
  assumes "s = history b acts ks" and "s' = invoke k b acts s"
  shows "(\<exists>new. snd s' = snd s @ new
            \<and> (\<forall>n \<in> set (prepares new). entries (load (fst s)) n = None)
            \<and> (\<forall>n \<in> set (posts new). phase_of (load (fst s)) n = prepare_done))
       \<and> distinct (prepares (snd s')) \<and> distinct (posts (snd s'))
       \<and> ended (status (load (fst (invoke (enough acts) b acts s))))
       \<and> (status (load (fst s)) = AwaitingExternalConversion \<longrightarrow>
            terminal (status (load (fst (invoke (enough acts) b acts s)))))
       \<and> terminal (status (load (fst (finish b acts s))))
       \<and> finish b acts s = uninterrupted b acts
       \<and> (status (load (fst s')) = Completed \<longrightarrow>
            set (prepares (snd s')) = {n \<in> set (active_names acts). is_required b n}
            \<and> set (posts (snd s')) = {n \<in> set (active_names acts). is_required b n})
       \<and> ((\<forall>n. check_passes b n) \<and> (\<forall>n. prepare_ok b n) \<and> (\<forall>n. post_ok b n) \<longrightarrow>
            status (load (fst (finish b acts s))) = Completed
            \<and> set (prepares (snd (finish b acts s))) = {n \<in> set (active_names acts). is_required b n}
            \<and> set (posts (snd (finish b acts s))) = {n \<in> set (active_names acts). is_required b n})"
proof -
  have h: "s' = history b acts (ks @ [k])"
    using assms by (simp add: history_def)
  then have "consistent (load (fst s')) (snd s')"
    using history_consistent by simp
  then have d: "distinct (prepares (snd s')) \<and> distinct (posts (snd s'))"
    by (simp add: consistent_def)
  have r: "status (load (fst s)) = AwaitingExternalConversion \<longrightarrow>
             terminal (status (load (fst (invoke (enough acts) b acts s))))"
    by (simp add: invoke_resumed_terminal)
  have f: "finish b acts s = uninterrupted b acts"
    using assms(1) by (simp add: finish_history)
  have c: "status (load (fst s')) = Completed \<longrightarrow>
             set (prepares (snd s')) = {n \<in> set (active_names acts). is_required b n}
             \<and> set (posts (snd s')) = {n \<in> set (active_names acts). is_required b n}"
    using accounted_completed[OF history_accounted[of b acts "ks @ [k]"]] h by simp
  have g: "status (load (fst (finish b acts s))) = Completed
             \<and> set (prepares (snd (finish b acts s))) = {n \<in> set (active_names acts). is_required b n}
             \<and> set (posts (snd (finish b acts s))) = {n \<in> set (active_names acts). is_required b n}"
    if ok: "(\<forall>n. check_passes b n) \<and> (\<forall>n. prepare_ok b n) \<and> (\<forall>n. post_ok b n)"
  proof -
    let ?u = "history b acts [enough acts, enough acts]"
    have u: "finish b acts s = ?u" using f by (simp add: uninterrupted_history)
    from ok have "\<not> reverting (status (load (fst ?u)))"
      by (intro history_forward) simp_all
    moreover have "terminal (status (load (fst ?u)))"
      using finish_terminal[of b acts s] u by simp
    ultimately have st: "status (load (fst ?u)) = Completed"
      by (auto simp: reverting_def terminal_def)
    from accounted_completed[OF history_accounted[of b acts "[enough acts, enough acts]"] st] st u
    show ?thesis by simp
  qed
  from invoke_new[of k b acts s] assms(2) d invoke_ends[of acts b s] r
    finish_terminal[of b acts s] f c g
  show ?thesis by blast
qed

theorem resumption_repeats_no_phase_witness:
  "snd (history good_behaviour scenario_actions [3]) = [Check ''CheckA'', Prepare ''ActiveX'']
   \<and> snd (invoke 1 good_behaviour scenario_actions (history good_behaviour scenario_actions [3]))
       = [Check ''CheckA'', Prepare ''ActiveX'', Prepare ''ActiveY'']
   \<and> distinct (prepares (snd (invoke 1 good_behaviour scenario_actions
                                  (history good_behaviour scenario_actions [3]))))
   \<and> distinct (posts (snd (invoke 1 good_behaviour scenario_actions
                               (history good_behaviour scenario_actions [3]))))
   \<and> ended (status (load (fst (invoke (enough scenario_actions) good_behaviour scenario_actions
                                  (history good_behaviour scenario_actions [3])))))
   \<and> status (load (fst (history good_behaviour scenario_actions [3, 13])))
       = AwaitingExternalConversion
   \<and> snd (invoke 2 good_behaviour scenario_actions (history good_behaviour scenario_actions [3, 13]))
       = [Check ''CheckA'', Prepare ''ActiveX'', Prepare ''ActiveY'', Post ''ActiveX'']
   \<and> terminal (status (load (fst (invoke (enough scenario_actions) good_behaviour scenario_actions
                                     (history good_behaviour scenario_actions [3, 13])))))
   \<and> finish good_behaviour scenario_actions
        (invoke 2 good_behaviour scenario_actions (history good_behaviour scenario_actions [3, 13]))
       = uninterrupted good_behaviour scenario_actions
   \<and> snd (uninterrupted good_behaviour scenario_actions)
       = [Check ''CheckA'', Prepare ''ActiveX'', Prepare ''ActiveY'', Post ''ActiveX'',
          Post ''ActiveY'']
   \<and> status (load (fst (finish good_behaviour scenario_actions
                          (history good_behaviour scenario_actions [3])))) = Completed
   \<and> set (posts (snd (finish good_behaviour scenario_actions
                         (history good_behaviour scenario_actions [3]))))
       = {''ActiveX'', ''ActiveY''}"
proof -
  have a: "snd (history good_behaviour scenario_actions [3]) = [Check ''CheckA'', Prepare ''ActiveX'']"
    by code_simp
  have b: "snd (invoke 1 good_behaviour scenario_actions (history good_behaviour scenario_actions [3]))
             = [Check ''CheckA'', Prepare ''ActiveX'', Prepare ''ActiveY'']"
    by code_simp
  have c: "status (load (fst (history good_behaviour scenario_actions [3, 13])))
             = AwaitingExternalConversion"
    by code_simp
  have d: "snd (invoke 2 good_behaviour scenario_actions (history good_behaviour scenario_actions [3, 13]))
             = [Check ''CheckA'', Prepare ''ActiveX'', Prepare ''ActiveY'', Post ''ActiveX'']"
    by code_simp
  have u: "snd (uninterrupted good_behaviour scenario_actions)
             = [Check ''CheckA'', Prepare ''ActiveX'', Prepare ''ActiveY'', Post ''ActiveX'',
                Post ''ActiveY'']"
    by code_simp
  have ok: "(\<forall>n. check_passes good_behaviour n) \<and> (\<forall>n. prepare_ok good_behaviour n)
            \<and> (\<forall>n. post_ok good_behaviour n)"
    by (simp add: good_behaviour_def)
  have names: "{n \<in> set (active_names scenario_actions). is_required good_behaviour n}
                 = {''ActiveX'', ''ActiveY''}"
    by (auto simp: scenario_actions_def good_behaviour_def)
  have h: "invoke 2 good_behaviour scenario_actions (history good_behaviour scenario_actions [3, 13])
             = history good_behaviour scenario_actions [3, 13, 2]"
    by (simp add: history_def)
  note t1 = resumption_repeats_no_phase [OF refl refl, of 1 good_behaviour scenario_actions "[3]"]
  note t2 = resumption_repeats_no_phase [OF refl refl, of 2 good_behaviour scenario_actions "[3, 13]"]
  note t3 = resumption_repeats_no_phase [OF refl refl, of 0 good_behaviour scenario_actions "[3, 13, 2]"]
  from t1 ok have q1:
    "status (load (fst (finish good_behaviour scenario_actions
                          (history good_behaviour scenario_actions [3])))) = Completed
     \<and> set (posts (snd (finish good_behaviour scenario_actions
                           (history good_behaviour scenario_actions [3]))))
         = {n \<in> set (active_names scenario_actions). is_required good_behaviour n}"
    by blast
  from t1 have q2:
    "distinct (prepares (snd (invoke 1 good_behaviour scenario_actions
                                (history good_behaviour scenario_actions [3]))))
     \<and> distinct (posts (snd (invoke 1 good_behaviour scenario_actions
                                (history good_behaviour scenario_actions [3]))))
     \<and> ended (status (load (fst (invoke (enough scenario_actions) good_behaviour scenario_actions
                                    (history good_behaviour scenario_actions [3])))))"
    by blast
  from q1 q2 have p1:
    "distinct (prepares (snd (invoke 1 good_behaviour scenario_actions
                                (history good_behaviour scenario_actions [3]))))
     \<and> distinct (posts (snd (invoke 1 good_behaviour scenario_actions
                                (history good_behaviour scenario_actions [3]))))
     \<and> ended (status (load (fst (invoke (enough scenario_actions) good_behaviour scenario_actions
                                    (history good_behaviour scenario_actions [3])))))
     \<and> status (load (fst (finish good_behaviour scenario_actions
                            (history good_behaviour scenario_actions [3])))) = Completed
     \<and> set (posts (snd (finish good_behaviour scenario_actions
                           (history good_behaviour scenario_actions [3]))))
         = {''ActiveX'', ''ActiveY''}"
    unfolding names by blast
  from t2 c have p2:
    "terminal (status (load (fst (invoke (enough scenario_actions) good_behaviour scenario_actions
                                    (history good_behaviour scenario_actions [3, 13])))))"
    by blast
  from t3 have "finish good_behaviour scenario_actions
                  (history good_behaviour scenario_actions [3, 13, 2])
                = uninterrupted good_behaviour scenario_actions"
    by blast
  with h have p3:
    "finish good_behaviour scenario_actions
        (invoke 2 good_behaviour scenario_actions (history good_behaviour scenario_actions [3, 13]))
       = uninterrupted good_behaviour scenario_actions"
    by simp
  from a b c d u p1 p2 p3 show ?thesis by blast
qed

section \<open>The pipeline: the revert path\<close>

lemma find_first_at:
  "i < length xs \<Longrightarrow> P (xs ! i) \<Longrightarrow> \<forall>x \<in> set (take i xs). \<not> P x \<Longrightarrow> find P xs = Some (xs ! i)"
proof (induction xs arbitrary: i)
  case Nil
  then show ?case by simp
next
  case (Cons x xs)
  then show ?case by (cases i) auto
qed

lemma find_last_at:
  assumes "j < length xs" and "P (xs ! j)" and "\<forall>x \<in> set (drop (Suc j) xs). \<not> P x"
  shows "find P (rev xs) = Some (xs ! j)"
proof -
  let ?k = "length xs - Suc j"
  have k: "?k < length (rev xs)" using assms(1) by simp
  have nth: "rev xs ! ?k = xs ! j" using assms(1) by (simp add: rev_nth)
  have "take ?k (rev xs) = rev (drop (Suc j) xs)"
    using assms(1) by (simp add: take_rev)
  with assms(3) have "\<forall>x \<in> set (take ?k (rev xs)). \<not> P x" by simp
  from find_first_at[OF k _ this] assms(2) nth show ?thesis by simp
qed

lemma find_none: "\<forall>x \<in> set xs. \<not> P x \<Longrightarrow> find P xs = None"
  by (simp add: find_None_iff)

lemma distinct_nth_not_in_take:
  "distinct xs \<Longrightarrow> j < length xs \<Longrightarrow> xs ! j \<notin> set (take j xs)"
  by (metis id_take_nth_drop distinct_append distinct.simps(2) disjoint_iff list.set_intros(1) not_distinct_conv_prefix)

lemma distinct_drop_not_in_take:
  "distinct xs \<Longrightarrow> x \<in> set (drop j xs) \<Longrightarrow> x \<notin> set (take j xs)"
  by (metis append_take_drop_id distinct_append disjoint_iff)

lemma set_take_Suc: "j < length xs \<Longrightarrow> set (take (Suc j) xs) = insert (xs ! j) (set (take j xs))"
  by (simp add: take_Suc_conv_app_nth)

lemma done_phase_entry: "done_phase (phase_of r n) \<Longrightarrow> entries r n \<noteq> None"
  by (cases "entries r n") (simp_all add: phase_of_def done_phase_def)

lemma no_entry_not_done: "entries r n = None \<Longrightarrow> \<not> done_phase (phase_of r n)"
  by (simp add: phase_of_def done_phase_def)

lemma transition_failing_run:
  assumes names: "names = active_names acts" and d: "distinct names" and i: "i < length names"
    and checks: "fst (run_checks b (check_names acts))"
    and before: "\<forall>j < i. is_required b (names ! j) \<longrightarrow> prepare_ok b (names ! j)"
    and at: "is_required b (names ! i)" "\<not> prepare_ok b (names ! i)"
    and J: "failing_run names i r log"
  shows "failing_run names i (fst (transition b acts r)) (log @ snd (transition b acts r))"
proof (cases "status r")
  case NotStarted
  with J show ?thesis
    by (simp add: failing_run_def transition_def prepared_upto_def)
next
  case Checking
  with J checks show ?thesis
    by (auto simp: failing_run_def transition_def prepared_upto_def)
next
  case Preparing
  with J obtain j where j: "j \<le> i" and p: "prepared_upto names j r" and l: "reverts log = []"
    by (auto simp: failing_run_def)
  let ?n = "names ! j"
  from j i have jl: "j < length names" by simp
  from d jl have notin: "?n \<notin> set (take j names)" by (rule distinct_nth_not_in_take)
  with p have none: "entries r ?n = None" by (auto simp: prepared_upto_def)
  have "\<forall>x \<in> set (take j names). \<not> entries r x = None"
    using p by (auto simp: prepared_upto_def)
  from find_first_at[of j names "\<lambda>n. entries r n = None", OF jl none this]
  have f: "find (\<lambda>n. entries r n = None) (active_names acts) = Some ?n"
    by (simp add: names)
  show ?thesis
  proof (cases "j < i")
    case True
    with before have ok: "is_required b ?n \<longrightarrow> prepare_ok b ?n" by simp
    have "prepared_upto names (Suc j) (record_phase ?n q ph r)" if "done_phase ph" for q ph
      using p that by (auto simp: prepared_upto_def set_take_Suc[OF jl])
    then have "prepared_upto names (Suc j) (record_phase ?n False post_done r)"
      and "prepared_upto names (Suc j) (record_phase ?n True prepare_done r)"
      by (simp_all add: done_phase_def)
    with True Preparing f ok l show ?thesis
      by (auto simp: failing_run_def transition_def Suc_le_eq intro!: exI[of _ "Suc j"])
  next
    case False
    with j have ji: "j = i" by simp
    have nd: "\<not> done_phase (phase_of r n)" if "n \<notin> set (take i names)" for n
    proof -
      from p ji that have "entries r n = None" by (auto simp: prepared_upto_def)
      then show ?thesis by (rule no_entry_not_done)
    qed
    have fl: "\<not> done_phase failed" by (simp add: done_phase_def)
    have "undone_from names i ((record_phase ?n True failed r)\<lparr>status := Reverting\<rparr>)"
      using p notin ji nd fl by (auto simp: undone_from_def prepared_upto_def)
    with ji Preparing f at l show ?thesis
      by (auto simp: failing_run_def transition_def intro!: exI[of _ i])
  qed
next
  case Reverting
  with J obtain j where j: "j \<le> i" and u: "undone_from names j r"
    and l: "reverts log = rev (drop j (take i names))"
    by (auto simp: failing_run_def)
  show ?thesis
  proof (cases j)
    case 0
    with u have "\<forall>x \<in> set (rev names). \<not> done_phase (phase_of r x)"
      by (simp add: undone_from_def)
    then have "find (\<lambda>n. done_phase (phase_of r n)) (rev (active_names acts)) = None"
      unfolding names[symmetric] by (rule find_none)
    with Reverting l 0 show ?thesis
      by (auto simp: failing_run_def transition_def)
  next
    case (Suc j')
    let ?n = "names ! j'"
    from Suc j i have j'l: "j' < length names" and j'i: "j' < i" by simp_all
    have inj: "?n \<in> set (take j names)" using Suc j'l by (simp add: set_take_Suc)
    with u have dn: "done_phase (phase_of r ?n)" by (simp add: undone_from_def)
    then have en: "entries r ?n \<noteq> None" by (rule done_phase_entry)
    have "\<forall>x \<in> set (drop (Suc j') names). \<not> done_phase (phase_of r x)"
      using u d Suc by (auto simp: undone_from_def dest: distinct_drop_not_in_take)
    from find_last_at[of j' names "\<lambda>n. done_phase (phase_of r n)", OF j'l dn this]
    have f: "find (\<lambda>n. done_phase (phase_of r n)) (rev (active_names acts)) = Some ?n"
      by (simp add: names)
    from d j'l have notin: "?n \<notin> set (take j' names)" by (rule distinct_nth_not_in_take)
    have u': "undone_from names j' (mark ?n ph r)" if "\<not> done_phase ph" for ph
      using u that notin en Suc by (auto simp: undone_from_def set_take_Suc[OF j'l])
    have "drop j' (take i names) = ?n # drop (Suc j') (take i names)"
      using j'i i by (simp add: Cons_nth_drop_Suc[symmetric])
    with l Suc have l': "reverts (log @ [Revert ?n]) = rev (drop j' (take i names))" by simp
    have j'le: "j' \<le> i" using j'i by simp
    have uf: "undone_from names j' ((mark ?n failed r)\<lparr>revert_failures := revert_failures r @ [?n]\<rparr>)"
      using u'[of failed] by (simp add: undone_from_def done_phase_def)
    from Reverting f l' j'le u'[of reverted] uf show ?thesis
      by (auto simp: failing_run_def transition_def done_phase_def intro!: exI[of _ j'])
  qed
qed (use J in \<open>simp_all add: failing_run_def transition_def\<close>)

lemma run_process_preserves:
  assumes "\<And>r log. P r log \<Longrightarrow> P (fst (transition b acts r)) (log @ snd (transition b acts r))"
  shows "P (load (fst s)) (snd s) \<Longrightarrow>
         P (load (fst (run_process k b acts s))) (snd (run_process k b acts s))"
  by (induction k arbitrary: s) (simp_all add: step_def assms)

lemma history_preserves:
  assumes t: "\<And>r log. P r log \<Longrightarrow> P (fst (transition b acts r)) (log @ snd (transition b acts r))"
    and init: "P initial_record []"
  shows "P (load (fst (history b acts ks))) (snd (history b acts ks))"
proof -
  have inv: "P (load (fst (invoke k b acts s))) (snd (invoke k b acts s))"
    if "P (load (fst s)) (snd s)" for s k
  proof -
    from that have "P (load (fst (resume b acts s))) (snd (resume b acts s))"
      by (simp add: resume_def step_def t)
    then show ?thesis
      unfolding invoke_def
      using run_process_preserves[where P = P and b = b and acts = acts and k = k, OF t]
      by blast
  qed
  have "P (load (fst (None, []))) (snd (None, []))" using init by simp
  then show ?thesis
    unfolding history_def
    by (rule foldl_preserves[where P = "\<lambda>s. P (load (fst s)) (snd s)"]) (rule inv)
qed

lemma failing_run_reverts:
  assumes "failing_run names i r log"
  shows "\<exists>j \<le> i. reverts log = rev (drop j (take i names))"
proof (cases "status r")
  case Reverting
  with assms show ?thesis by (auto simp: failing_run_def)
next
  case Reverted
  with assms show ?thesis by (auto simp: failing_run_def intro!: exI[of _ 0])
next
  case Failed
  with assms show ?thesis by (auto simp: failing_run_def intro!: exI[of _ 0])
qed (use assms in \<open>auto simp: failing_run_def intro!: exI[of _ i]\<close>)

lemma failing_run_ended:
  "failing_run names i r log \<Longrightarrow> ended (status r) \<Longrightarrow>
   (status r = Reverted \<or> status r = Failed) \<and> reverts log = rev (take i names)"
  by (cases "status r") (auto simp: failing_run_def ended_def)

text \<open>
  Claim C5 (on the Pipeline Runner as the spec describes it). Let the Active actions
  have distinct names, let all checks pass, and let the Active action at position
  \<open>i + 1\<close> of the list (index \<open>i\<close>) be the first whose \<open>prepare()\<close> fails: the required
  actions before it prepare successfully. Then, however the run is cut into processes by
  kills after a save: at every moment the reverts invoked so far are those of the
  actions at positions \<open>i\<close> down to \<open>j + 1\<close> for some \<open>j\<close>, in this order, so \<open>revert()\<close> is
  never invoked on the action whose prepare failed nor on any action after it; and a
  process that is not killed ends the run \<open>Reverted\<close> or \<open>Failed\<close> with the reverts of
  exactly the actions at positions \<open>1..i\<close>, in reverse list order.
\<close>

theorem revert_sequence_after_failed_prepare:
  assumes "distinct (active_names acts)" and "i < length (active_names acts)"
    and "fst (run_checks b (check_names acts))"
    and "\<forall>j < i. is_required b (active_names acts ! j) \<longrightarrow> prepare_ok b (active_names acts ! j)"
    and "is_required b (active_names acts ! i)" and "\<not> prepare_ok b (active_names acts ! i)"
  shows "(\<exists>j \<le> i. reverts (snd (history b acts ks)) = rev (drop j (take i (active_names acts))))
       \<and> (\<forall>m. i \<le> m \<and> m < length (active_names acts)
              \<longrightarrow> active_names acts ! m \<notin> set (reverts (snd (history b acts ks))))
       \<and> (status (load (fst (invoke (enough acts) b acts (history b acts ks)))) = Reverted
            \<or> status (load (fst (invoke (enough acts) b acts (history b acts ks)))) = Failed)
       \<and> reverts (snd (invoke (enough acts) b acts (history b acts ks)))
           = rev (take i (active_names acts))"
proof -
  let ?names = "active_names acts"
  have t: "failing_run ?names i (fst (transition b acts r)) (log @ snd (transition b acts r))"
    if "failing_run ?names i r log" for r log
    using refl assms that by (rule transition_failing_run)
  have init: "failing_run ?names i initial_record []"
    by (simp add: failing_run_def initial_record_def prepared_upto_def)
  have J: "failing_run ?names i (load (fst (history b acts ks))) (snd (history b acts ks))" for ks
    using t init by (rule history_preserves[of "failing_run ?names i"])
  from failing_run_reverts[OF J] obtain j where
    j: "j \<le> i" "reverts (snd (history b acts ks)) = rev (drop j (take i ?names))"
    by blast
  have 1: "\<exists>j \<le> i. reverts (snd (history b acts ks)) = rev (drop j (take i ?names))"
    using j by blast
  have 2: "\<forall>m. i \<le> m \<and> m < length ?names
              \<longrightarrow> ?names ! m \<notin> set (reverts (snd (history b acts ks)))"
  proof (intro allI impI)
    fix m assume m: "i \<le> m \<and> m < length ?names"
    then have "m - i < length (drop i ?names)" by auto
    then have "drop i ?names ! (m - i) \<in> set (drop i ?names)" by (rule nth_mem)
    moreover have "drop i ?names ! (m - i) = ?names ! m" using m by simp
    ultimately have "?names ! m \<in> set (drop i ?names)" by simp
    with assms(1) have "?names ! m \<notin> set (take i ?names)"
      by (rule distinct_drop_not_in_take)
    then show "?names ! m \<notin> set (reverts (snd (history b acts ks)))"
      using j(2) by (auto dest: in_set_dropD)
  qed
  have "invoke (enough acts) b acts (history b acts ks) = history b acts (ks @ [enough acts])"
    by (simp add: history_def)
  with J[of "ks @ [enough acts]"]
  have "failing_run ?names i (load (fst (invoke (enough acts) b acts (history b acts ks))))
          (snd (invoke (enough acts) b acts (history b acts ks)))"
    by simp
  from failing_run_ended[OF this invoke_ends] 1 2 show ?thesis by blast
qed

theorem revert_sequence_after_failed_prepare_witness:
  "distinct (active_names scenario_actions) \<and> 1 < length (active_names scenario_actions)
   \<and> active_names scenario_actions ! 1 = ''ActiveY''
   \<and> \<not> prepare_ok scenario_behaviour ''ActiveY''
   \<and> reverts (snd (invoke (enough scenario_actions) scenario_behaviour scenario_actions
                      (history scenario_behaviour scenario_actions [3])))
       = [''ActiveX'']"
proof -
  have n: "active_names scenario_actions = [''ActiveX'', ''ActiveY'']"
    by (simp add: scenario_actions_def)
  have d: "distinct (active_names scenario_actions)" by (simp add: n)
  have l: "1 < length (active_names scenario_actions)" by (simp add: n)
  have c: "fst (run_checks scenario_behaviour (check_names scenario_actions))"
    by (simp add: scenario_actions_def scenario_behaviour_def)
  have b: "\<forall>j < 1. is_required scenario_behaviour (active_names scenario_actions ! j)
                  \<longrightarrow> prepare_ok scenario_behaviour (active_names scenario_actions ! j)"
    by (simp add: n scenario_behaviour_def)
  have r: "is_required scenario_behaviour (active_names scenario_actions ! 1)"
    by (simp add: scenario_behaviour_def)
  have f: "\<not> prepare_ok scenario_behaviour (active_names scenario_actions ! 1)"
    by (simp add: n scenario_behaviour_def)
  from revert_sequence_after_failed_prepare [OF d l c b r f, of "[3]"] n f
  show ?thesis by simp
qed

end
